theory Spec2Isabelle
  imports Main "HOL-Library.Word" "HOL-Library.Multiset"
begin

unbundle bit_operations_syntax

section \<open>Machine integers, error numbers, file modes\<close>

type_synonym u8 = "8 word"
type_synonym u16 = "16 word"
type_synonym u32 = "32 word"
type_synonym u64 = "64 word"

text \<open>The Linux error numbers that \<^verbatim>\<open>inode.c\<close> names. A function that fails returns
  the negated number.\<close>

definition ENOENT :: int where "ENOENT = 2"
definition EIO :: int where "EIO = 5"
definition ENOMEM :: int where "ENOMEM = 12"
definition EEXIST :: int where "EEXIST = 17"
definition ENOSPC :: int where "ENOSPC = 28"
definition ERESTARTSYS :: int where "ERESTARTSYS = 512"

lemmas errno_defs = ENOENT_def EIO_def ENOMEM_def EEXIST_def ENOSPC_def ERESTARTSYS_def

text \<open>\<^verbatim>\<open>S_ISREG(mode)\<close> is \<^verbatim>\<open>(mode & S_IFMT) == S_IFREG\<close> with \<^verbatim>\<open>S_IFMT = 0170000\<close>
  and \<^verbatim>\<open>S_IFREG = 0100000\<close>; \<^verbatim>\<open>umode_t\<close> is an unsigned short.\<close>

definition S_IFMT :: u16 where "S_IFMT = 0xF000"
definition S_IFREG :: u16 where "S_IFREG = 0x8000"

definition S_ISREG :: "u16 \<Rightarrow> bool" where
  "S_ISREG m = (m AND S_IFMT = S_IFREG)"

text \<open>Modelled from the spec: \<^verbatim>\<open>format.h\<close> is not part of the sources, so the codes of the
  three index kinds (by size, by metadata-change sequence, by data-change sequence) are
  fixed here as three distinct bytes.\<close>

definition SCOUTFS_INODE_INDEX_SIZE_TYPE :: u8 where "SCOUTFS_INODE_INDEX_SIZE_TYPE = 1"
definition SCOUTFS_INODE_INDEX_META_SEQ_TYPE :: u8 where "SCOUTFS_INODE_INDEX_META_SEQ_TYPE = 2"
definition SCOUTFS_INODE_INDEX_DATA_SEQ_TYPE :: u8 where "SCOUTFS_INODE_INDEX_DATA_SEQ_TYPE = 3"

lemmas index_type_defs = SCOUTFS_INODE_INDEX_SIZE_TYPE_def
  SCOUTFS_INODE_INDEX_META_SEQ_TYPE_def SCOUTFS_INODE_INDEX_DATA_SEQ_TYPE_def

section \<open>Data model\<close>

record scoutfs_timespec =
  sec :: u64
  nsec :: u32

text \<open>\<^verbatim>\<open>struct scoutfs_inode\<close>, the value of an inode item. The byte-order conversions
  (\<^verbatim>\<open>le64_to_cpu\<close> and friends) are the identity on values.\<close>

record scoutfs_inode =
  di_size :: u64
  di_nlink :: u32
  di_uid :: u32
  di_gid :: u32
  di_mode :: u32
  di_rdev :: u32
  di_atime :: scoutfs_timespec
  di_ctime :: scoutfs_timespec
  di_mtime :: scoutfs_timespec
  di_meta_seq :: u64
  di_data_seq :: u64
  di_data_version :: u64
  di_next_readdir_pos :: u64
  di_flags :: u32

text \<open>\<^verbatim>\<open>struct scoutfs_inode_info\<close> with the fields of the embedded vfs inode that
  \<^verbatim>\<open>load_inode\<close> writes.\<close>

record scoutfs_inode_info =
  ino :: u64
  i_size :: u64
  i_nlink :: u32
  i_uid :: u32
  i_gid :: u32
  i_mode :: u16
  i_rdev :: u32
  i_atime :: scoutfs_timespec
  i_mtime :: scoutfs_timespec
  i_ctime :: scoutfs_timespec
  meta_seq :: u64
  data_seq :: u64
  data_version :: u64
  next_readdir_pos :: u64
  flags :: u32
  have_item :: bool
  item_majors :: "u8 \<Rightarrow> u64"
  item_minors :: "u8 \<Rightarrow> u32"
  last_refreshed :: u64

text \<open>Item keys: the inode item, an inode index item (zone, type, major, minor, ino) and
  the orphan item (node id, ino).\<close>

datatype key =
    Inode_key u64
  | Index_key u8 u64 u32 u64
  | Orphan_key u64 u64

datatype dlm_mode = DLM_LOCK_PR | DLM_LOCK_CW | DLM_LOCK_EX

datatype lock_name =
    Ino_lock u64
  | Index_lock u8 u64 u64
  | Node_id_lock

record scoutfs_lock =
  lock_name :: lock_name
  refresh_gen :: u64

definition scoutfs_lock_refresh_gen :: "scoutfs_lock \<Rightarrow> u64" where
  "scoutfs_lock_refresh_gen lck = refresh_gen lck"

text \<open>\<^verbatim>\<open>struct index_lock\<close>: one entry of the list of index locks of an update.\<close>

record index_lock =
  il_lock :: "scoutfs_lock option"
  il_type :: u8
  il_major :: u64
  il_minor :: u32
  il_ino :: u64

section \<open>The services outside \<^verbatim>\<open>inode.c\<close>\<close>

text \<open>Every call that leaves \<^verbatim>\<open>inode.c\<close> is recorded, in order.\<close>

datatype call =
    Item_lookup_exact key
  | Item_create key
  | Item_create_force key
  | Item_delete key
  | Item_delete_force key
  | Lock_ino dlm_mode u64
  | Lock_inode_index dlm_mode u8 u64 u64
  | Unlock "scoutfs_lock option" dlm_mode
  | Hold_trans
  | Release_trans
  | Kzalloc

text \<open>The super block stands for everything the functions reach through \<^verbatim>\<open>sb\<close>: the
  item store, the lock service, the transaction service and the transaction sequence.
  \<^item> \<open>items\<close> is the content of the item store; an index or orphan item has no value.
  \<^item> \<open>faults\<close> decides the outcome of the calls that can fail for reasons outside the
    model (I/O, memory, the network): each such call takes the head of the list and fails
    with it when it is negative; on an empty list it goes through.
  \<^item> \<open>commits\<close> is what other tasks do to the transaction sequence while this one
    blocks: each blocking call takes the head and adds it to \<open>trans_seq\<close>.
  \<^item> \<open>held_locks\<close> and \<open>trans_holds\<close> count what the task holds.\<close>

record super_block =
  items :: "key \<rightharpoonup> scoutfs_inode option"
  faults :: "int list"
  commits :: "u64 list"
  trans_seq :: u64
  node_id :: u64
  lock_gens :: "lock_name \<Rightarrow> u64"
  held_locks :: "(lock_name \<times> dlm_mode) multiset"
  trans_holds :: nat
  trace :: "call list"

definition called :: "call \<Rightarrow> super_block \<Rightarrow> super_block" where
  "called c sb = sb\<lparr>trace := trace sb @ [c]\<rparr>"

definition take_fault :: "super_block \<Rightarrow> int \<times> super_block" where
  "take_fault sb = (case faults sb of [] \<Rightarrow> (0, sb) | e # es \<Rightarrow> (e, sb\<lparr>faults := es\<rparr>))"

definition env_commit :: "super_block \<Rightarrow> super_block" where
  "env_commit sb =
     (case commits sb of [] \<Rightarrow> sb
      | c # cs \<Rightarrow> sb\<lparr>commits := cs, trans_seq := trans_seq sb + c\<rparr>)"

subsection \<open>The item store\<close>

text \<open>Modelled from the spec: \<^verbatim>\<open>item.c\<close> is not part of the sources. The spec gives
  \<^verbatim>\<open>lookup_exact(key) -> value | NotFound\<close>; a value of another size than the caller's
  buffer is an I/O error. \<open>Inl e\<close> is the call returning the negative \<open>e\<close>; \<open>Inr v\<close> is
  the call returning 0 with the value \<open>v\<close> copied to the caller's buffer. The lock
  argument is what the caller passes and does not change the result.\<close>

definition scoutfs_item_lookup_exact ::
  "super_block \<Rightarrow> key \<Rightarrow> scoutfs_lock option \<Rightarrow> (int + scoutfs_inode) \<times> super_block" where
  "scoutfs_item_lookup_exact sb k lck =
     (case take_fault (called (Item_lookup_exact k) sb) of (e, sb1) \<Rightarrow>
        if e < 0 then (Inl e, sb1)
        else (case items sb1 k of
                None \<Rightarrow> (Inl (- ENOENT), sb1)
              | Some None \<Rightarrow> (Inl (- EIO), sb1)
              | Some (Some v) \<Rightarrow> (Inr v, sb1)))"

text \<open>Modelled from the spec: \<^verbatim>\<open>create(key,val) -> Ok | AlreadyExists\<close>.\<close>

definition scoutfs_item_create ::
  "super_block \<Rightarrow> key \<Rightarrow> scoutfs_inode option \<Rightarrow> scoutfs_lock option \<Rightarrow> int \<times> super_block" where
  "scoutfs_item_create sb k v lck =
     (case take_fault (called (Item_create k) sb) of (e, sb1) \<Rightarrow>
        if e < 0 then (e, sb1)
        else if items sb1 k \<noteq> None then (- EEXIST, sb1)
        else (0, sb1\<lparr>items := (items sb1)(k \<mapsto> v)\<rparr>))"

text \<open>Modelled from the spec: \<^verbatim>\<open>create_force\<close> creates the item and absorbs
  "already exists".\<close>

definition scoutfs_item_create_force ::
  "super_block \<Rightarrow> key \<Rightarrow> scoutfs_inode option \<Rightarrow> scoutfs_lock option \<Rightarrow> int \<times> super_block" where
  "scoutfs_item_create_force sb k v lck =
     (case take_fault (called (Item_create_force k) sb) of (e, sb1) \<Rightarrow>
        if e < 0 then (e, sb1)
        else (0, sb1\<lparr>items := (items sb1)(k \<mapsto> v)\<rparr>))"

text \<open>Modelled from the spec: \<^verbatim>\<open>delete(key) -> Ok | NotFound\<close>.\<close>

definition scoutfs_item_delete ::
  "super_block \<Rightarrow> key \<Rightarrow> scoutfs_lock option \<Rightarrow> int \<times> super_block" where
  "scoutfs_item_delete sb k lck =
     (case take_fault (called (Item_delete k) sb) of (e, sb1) \<Rightarrow>
        if e < 0 then (e, sb1)
        else if items sb1 k = None then (- ENOENT, sb1)
        else (0, sb1\<lparr>items := (items sb1)(k := None)\<rparr>))"

text \<open>Modelled from the spec: \<^verbatim>\<open>delete_force\<close> deletes the item and absorbs
  "already gone".\<close>

definition scoutfs_item_delete_force ::
  "super_block \<Rightarrow> key \<Rightarrow> scoutfs_lock option \<Rightarrow> int \<times> super_block" where
  "scoutfs_item_delete_force sb k lck =
     (case take_fault (called (Item_delete_force k) sb) of (e, sb1) \<Rightarrow>
        if e < 0 then (e, sb1)
        else (0, sb1\<lparr>items := (items sb1)(k := None)\<rparr>))"

subsection \<open>Locks and transactions\<close>

text \<open>Modelled from the spec: \<^verbatim>\<open>lock.c\<close> is not part of the sources. The spec gives
  \<^verbatim>\<open>acquire(descriptor, mode) -> token | Err\<close> and \<^verbatim>\<open>release(token)\<close>; acquiring may
  block.\<close>

definition acquire :: "super_block \<Rightarrow> lock_name \<Rightarrow> dlm_mode \<Rightarrow> int \<times> scoutfs_lock option \<times> super_block" where
  "acquire sb n m =
     (case take_fault (env_commit sb) of (e, sb1) \<Rightarrow>
        if e < 0 then (e, None, sb1)
        else (0, Some \<lparr>lock_name = n, refresh_gen = lock_gens sb1 n\<rparr>,
              sb1\<lparr>held_locks := add_mset (n, m) (held_locks sb1)\<rparr>))"

definition scoutfs_lock_ino ::
  "super_block \<Rightarrow> dlm_mode \<Rightarrow> u64 \<Rightarrow> int \<times> scoutfs_lock option \<times> super_block" where
  "scoutfs_lock_ino sb m i = acquire (called (Lock_ino m i) sb) (Ino_lock i) m"

definition scoutfs_lock_inode_index ::
  "super_block \<Rightarrow> dlm_mode \<Rightarrow> u8 \<Rightarrow> u64 \<Rightarrow> u64 \<Rightarrow> int \<times> scoutfs_lock option \<times> super_block" where
  "scoutfs_lock_inode_index sb m ty major i =
     acquire (called (Lock_inode_index m ty major i) sb) (Index_lock ty major i) m"

text \<open>Unlocking a null lock does nothing.\<close>

definition scoutfs_unlock :: "super_block \<Rightarrow> scoutfs_lock option \<Rightarrow> dlm_mode \<Rightarrow> super_block" where
  "scoutfs_unlock sb lck m =
     (case lck of
        None \<Rightarrow> called (Unlock lck m) sb
      | Some l \<Rightarrow> (called (Unlock lck m) sb)\<lparr>held_locks := held_locks sb - {#(lock_name l, m)#}\<rparr>)"

text \<open>Modelled from the spec: \<^verbatim>\<open>trans.c\<close> is not part of the sources. The spec gives
  \<^verbatim>\<open>begin(expected_cost) -> Ok | Err\<close>, which may block, and \<^verbatim>\<open>commit/release\<close>. The
  expected cost does not change the result and is left out.\<close>

definition scoutfs_hold_trans :: "super_block \<Rightarrow> int \<times> super_block" where
  "scoutfs_hold_trans sb =
     (case take_fault (env_commit (called Hold_trans sb)) of (e, sb1) \<Rightarrow>
        if e < 0 then (e, sb1)
        else (0, sb1\<lparr>trans_holds := Suc (trans_holds sb1)\<rparr>))"

definition scoutfs_release_trans :: "super_block \<Rightarrow> super_block" where
  "scoutfs_release_trans sb = (called Release_trans sb)\<lparr>trans_holds := trans_holds sb - 1\<rparr>"

section \<open>Index items and index locks\<close>

definition will_del_index :: "scoutfs_inode_info option \<Rightarrow> u8 \<Rightarrow> u64 \<Rightarrow> u32 \<Rightarrow> bool" where
  "will_del_index si type major minor =
     (case si of None \<Rightarrow> False
      | Some s \<Rightarrow> have_item s \<and> (item_majors s type \<noteq> major \<or> item_minors s type \<noteq> minor))"

definition will_ins_index :: "scoutfs_inode_info option \<Rightarrow> u8 \<Rightarrow> u64 \<Rightarrow> u32 \<Rightarrow> bool" where
  "will_ins_index si type major minor =
     (case si of None \<Rightarrow> True
      | Some s \<Rightarrow> \<not> have_item s \<or> (item_majors s type \<noteq> major \<or> item_minors s type \<noteq> minor))"

definition inode_has_index :: "u16 \<Rightarrow> u8 \<Rightarrow> bool" where
  "inode_has_index mode type =
     (if type = SCOUTFS_INODE_INDEX_SIZE_TYPE \<or> type = SCOUTFS_INODE_INDEX_META_SEQ_TYPE then True
      else if type = SCOUTFS_INODE_INDEX_DATA_SEQ_TYPE then S_ISREG mode
      else False)"

definition scoutfs_cmp_u64s :: "u64 \<Rightarrow> u64 \<Rightarrow> int" where
  "scoutfs_cmp_u64s a b = (if a < b then - 1 else if a > b then 1 else 0)"

text \<open>\<^verbatim>\<open>a ?: b\<close> is \<^verbatim>\<open>a\<close> when it is not zero, else \<^verbatim>\<open>b\<close>.\<close>

definition elvis :: "int \<Rightarrow> int \<Rightarrow> int" where
  "elvis a b = (if a \<noteq> 0 then a else b)"

definition cmp_index_lock :: "index_lock \<Rightarrow> index_lock \<Rightarrow> int" where
  "cmp_index_lock a b =
     elvis (uint (il_type a) - uint (il_type b))
       (elvis (scoutfs_cmp_u64s (il_major a) (il_major b))
          (elvis (scoutfs_cmp_u64s (ucast (il_minor a)) (ucast (il_minor b)))
             (scoutfs_cmp_u64s (il_ino a) (il_ino b))))"

text \<open>\<^verbatim>\<open>scoutfs_lock_get_index_item_range\<close> lives in \<^verbatim>\<open>lock.c\<close>, which is not part of the
  sources: the functions below take it as the parameter \<open>rng\<close>, which maps a type, major
  and ino to the (major, minor, ino) of the start of their lock range.\<close>

type_synonym index_range = "u8 \<Rightarrow> u64 \<Rightarrow> u64 \<Rightarrow> u64 \<times> u32 \<times> u64"

definition clamp_inode_index :: "index_range \<Rightarrow> u8 \<Rightarrow> u64 \<Rightarrow> u32 \<Rightarrow> u64 \<Rightarrow> u64 \<times> u32 \<times> u64" where
  "clamp_inode_index rng type major minor i = rng type major i"

fun find_index_lock_loop :: "index_lock \<Rightarrow> index_lock list \<Rightarrow> scoutfs_lock option" where
  "find_index_lock_loop needle [] = None"
| "find_index_lock_loop needle (ind_lock # rest) =
     (let cmp = cmp_index_lock needle ind_lock in
      if cmp = 0 then il_lock ind_lock
      else if cmp < 0 then None
      else find_index_lock_loop needle rest)"

definition find_index_lock ::
  "index_range \<Rightarrow> index_lock list \<Rightarrow> u8 \<Rightarrow> u64 \<Rightarrow> u32 \<Rightarrow> u64 \<Rightarrow> scoutfs_lock option" where
  "find_index_lock rng lock_list type major minor i =
     (case clamp_inode_index rng type major minor i of (major', minor', ino') \<Rightarrow>
        find_index_lock_loop
          \<lparr>il_lock = None, il_type = type, il_major = major', il_minor = minor', il_ino = ino'\<rparr>
          lock_list)"

text \<open>\<^verbatim>\<open>update_index_items\<close>. \<open>None\<close> is the kernel halting in \<^verbatim>\<open>BUG_ON(err)\<close>; otherwise
  the result is the return value and the super block after the call.\<close>

definition update_index_items ::
  "index_range \<Rightarrow> super_block \<Rightarrow> scoutfs_inode_info option \<Rightarrow> u64 \<Rightarrow> u8 \<Rightarrow> u64 \<Rightarrow> u32 \<Rightarrow>
   index_lock list \<Rightarrow> (int \<times> super_block) option" where
  "update_index_items rng sb si i type major minor lock_list =
     (if \<not> will_ins_index si type major minor then Some (0, sb)
      else
        let ins = Index_key type major minor i;
            ins_lock = find_index_lock rng lock_list type major minor i
        in case scoutfs_item_create_force sb ins None ins_lock of (ret, sb1) \<Rightarrow>
          if ret \<noteq> 0 \<or> \<not> will_del_index si type major minor then Some (ret, sb1)
          else (case si of
                  None \<Rightarrow> Some (ret, sb1)
                | Some s \<Rightarrow>
                    let del = Index_key type (item_majors s type) (item_minors s type) i;
                        del_lock = find_index_lock rng lock_list type (item_majors s type)
                                     (item_minors s type) i
                    in case scoutfs_item_delete_force sb1 del del_lock of (ret, sb2) \<Rightarrow>
                      if ret \<noteq> 0 then
                        (case scoutfs_item_delete sb2 ins ins_lock of (err, sb3) \<Rightarrow>
                           if err \<noteq> 0 then None else Some (ret, sb3))
                      else Some (ret, sb2)))"

section \<open>Preparing, taking and dropping the index locks\<close>

text \<open>\<^verbatim>\<open>kzalloc\<close> can fail; the super block only carries the schedule that says when.\<close>

definition kzalloc :: "super_block \<Rightarrow> bool \<times> super_block" where
  "kzalloc sb = (case take_fault (called Kzalloc sb) of (e, sb1) \<Rightarrow> (\<not> e < 0, sb1))"

fun index_lock_listed :: "index_lock list \<Rightarrow> u8 \<Rightarrow> u64 \<Rightarrow> u32 \<Rightarrow> u64 \<Rightarrow> bool" where
  "index_lock_listed [] type major minor i = False"
| "index_lock_listed (ind_lock # rest) type major minor i =
     (if il_type ind_lock = type \<and> il_major ind_lock = major \<and>
         il_minor ind_lock = minor \<and> il_ino ind_lock = i then True
      else index_lock_listed rest type major minor i)"

text \<open>\<^verbatim>\<open>add_index_lock\<close>: \<^verbatim>\<open>list_add\<close> puts the new entry at the head of the list.\<close>

definition add_index_lock ::
  "index_range \<Rightarrow> super_block \<Rightarrow> index_lock list \<Rightarrow> u64 \<Rightarrow> u8 \<Rightarrow> u64 \<Rightarrow> u32 \<Rightarrow>
   int \<times> super_block \<times> index_lock list" where
  "add_index_lock rng sb list i type major minor =
     (case clamp_inode_index rng type major minor i of (major', minor', ino') \<Rightarrow>
        if index_lock_listed list type major' minor' ino' then (0, sb, list)
        else (case kzalloc sb of (ok, sb1) \<Rightarrow>
          if \<not> ok then (- ENOMEM, sb1, list)
          else (0, sb1, \<lparr>il_lock = None, il_type = type, il_major = major',
                         il_minor = minor', il_ino = ino'\<rparr> # list)))"

definition prepare_index_items ::
  "index_range \<Rightarrow> super_block \<Rightarrow> scoutfs_inode_info option \<Rightarrow> index_lock list \<Rightarrow> u64 \<Rightarrow> u16 \<Rightarrow>
   u8 \<Rightarrow> u64 \<Rightarrow> u32 \<Rightarrow> int \<times> super_block \<times> index_lock list" where
  "prepare_index_items rng sb si list i mode type major minor =
     (case (if will_ins_index si type major minor
            then add_index_lock rng sb list i type major minor
            else (0, sb, list)) of (ret, sb1, list1) \<Rightarrow>
        if ret \<noteq> 0 then (ret, sb1, list1)
        else (case si of
                None \<Rightarrow> (0, sb1, list1)
              | Some s \<Rightarrow>
                  if will_del_index si type major minor
                  then add_index_lock rng sb1 list1 i type (item_majors s type) (item_minors s type)
                  else (0, sb1, list1)))"

definition upd_data_seq :: "super_block \<Rightarrow> scoutfs_inode_info option \<Rightarrow> bool \<Rightarrow> u64" where
  "upd_data_seq sbi si set_data_seq =
     (case si of
        None \<Rightarrow> trans_seq sbi
      | Some s \<Rightarrow>
          if \<not> have_item s \<or> set_data_seq then trans_seq sbi
          else item_majors s SCOUTFS_INODE_INDEX_DATA_SEQ_TYPE)"

text \<open>The loop of \<^verbatim>\<open>prepare_indices\<close> over its three updates. \<open>ret\<close> is the value the C
  variable holds so far; it starts uninitialised and the size index, which every mode
  has, assigns it.\<close>

fun prepare_indices_loop ::
  "index_range \<Rightarrow> super_block \<Rightarrow> index_lock list \<Rightarrow> scoutfs_inode_info option \<Rightarrow> u64 \<Rightarrow> u16 \<Rightarrow>
   int \<Rightarrow> (u8 \<times> u64 \<times> u32) list \<Rightarrow> int \<times> super_block \<times> index_lock list" where
  "prepare_indices_loop rng sb list si i mode ret [] = (ret, sb, list)"
| "prepare_indices_loop rng sb list si i mode ret ((type, major, minor) # upds) =
     (if \<not> inode_has_index mode type then prepare_indices_loop rng sb list si i mode ret upds
      else (case prepare_index_items rng sb si list i mode type major minor of (ret', sb1, list1) \<Rightarrow>
        if ret' \<noteq> 0 then (ret', sb1, list1)
        else prepare_indices_loop rng sb1 list1 si i mode ret' upds))"

definition prepare_indices ::
  "index_range \<Rightarrow> super_block \<Rightarrow> index_lock list \<Rightarrow> scoutfs_inode_info option \<Rightarrow> u64 \<Rightarrow> u16 \<Rightarrow>
   u64 \<Rightarrow> bool \<Rightarrow> int \<times> super_block \<times> index_lock list" where
  "prepare_indices rng sb list si i mode new_size set_data_seq =
     prepare_indices_loop rng sb list si i mode 0
       [(SCOUTFS_INODE_INDEX_SIZE_TYPE, new_size, 0),
        (SCOUTFS_INODE_INDEX_META_SEQ_TYPE, trans_seq sb, 0),
        (SCOUTFS_INODE_INDEX_DATA_SEQ_TYPE, upd_data_seq sb si set_data_seq, 0)]"

definition scoutfs_inode_index_prepare ::
  "index_range \<Rightarrow> super_block \<Rightarrow> index_lock list \<Rightarrow> scoutfs_inode_info \<Rightarrow> u64 \<Rightarrow> bool \<Rightarrow>
   int \<times> super_block \<times> index_lock list" where
  "scoutfs_inode_index_prepare rng sb list inode new_size set_data_seq =
     prepare_indices rng sb list (Some inode) (ino inode) (i_mode inode) new_size set_data_seq"

fun prepare_index_deletion_loop ::
  "index_range \<Rightarrow> super_block \<Rightarrow> index_lock list \<Rightarrow> u64 \<Rightarrow> u16 \<Rightarrow> int \<Rightarrow>
   (u8 \<times> u64 \<times> u32) list \<Rightarrow> int \<times> super_block \<times> index_lock list" where
  "prepare_index_deletion_loop rng sb list i mode ret [] = (ret, sb, list)"
| "prepare_index_deletion_loop rng sb list i mode ret ((type, major, minor) # inds) =
     (if \<not> inode_has_index mode type then prepare_index_deletion_loop rng sb list i mode ret inds
      else (case add_index_lock rng sb list i type major minor of (ret', sb1, list1) \<Rightarrow>
        if ret' \<noteq> 0 then (ret', sb1, list1)
        else prepare_index_deletion_loop rng sb1 list1 i mode ret' inds))"

definition prepare_index_deletion ::
  "index_range \<Rightarrow> super_block \<Rightarrow> index_lock list \<Rightarrow> u64 \<Rightarrow> u16 \<Rightarrow> scoutfs_inode \<Rightarrow>
   int \<times> super_block \<times> index_lock list" where
  "prepare_index_deletion rng sb list i mode sinode =
     prepare_index_deletion_loop rng sb list i mode 0
       [(SCOUTFS_INODE_INDEX_SIZE_TYPE, di_size sinode, 0),
        (SCOUTFS_INODE_INDEX_META_SEQ_TYPE, di_meta_seq sinode, 0),
        (SCOUTFS_INODE_INDEX_DATA_SEQ_TYPE, di_data_seq sinode, 0)]"

definition scoutfs_inode_index_start :: "super_block \<Rightarrow> int \<times> u64" where
  "scoutfs_inode_index_start sb = (0, trans_seq sb)"

text \<open>\<^verbatim>\<open>list_sort\<close> is the kernel's stable merge sort, which is not part of the sources:
  a stable insertion sort by the same comparison gives the same list.\<close>

fun sort_insert :: "index_lock \<Rightarrow> index_lock list \<Rightarrow> index_lock list" where
  "sort_insert a [] = [a]"
| "sort_insert a (b # bs) =
     (if cmp_index_lock a b \<le> 0 then a # b # bs else b # sort_insert a bs)"

definition list_sort :: "index_lock list \<Rightarrow> index_lock list" where
  "list_sort list = foldr sort_insert list []"

text \<open>The first loop of \<^verbatim>\<open>scoutfs_inode_index_try_lock_hold\<close>: lock every entry, stop at
  the first failure. The entries come back with their \<open>il_lock\<close> set.\<close>

fun lock_index_locks :: "super_block \<Rightarrow> index_lock list \<Rightarrow> int \<times> super_block \<times> index_lock list" where
  "lock_index_locks sb [] = (0, sb, [])"
| "lock_index_locks sb (ind_lock # rest) =
     (case scoutfs_lock_inode_index sb DLM_LOCK_CW (il_type ind_lock) (il_major ind_lock)
             (il_ino ind_lock) of (ret, lck, sb1) \<Rightarrow>
        if ret \<noteq> 0 then (ret, sb1, ind_lock\<lparr>il_lock := lck\<rparr> # rest)
        else (case lock_index_locks sb1 rest of (ret', sb2, rest') \<Rightarrow>
                (ret', sb2, ind_lock\<lparr>il_lock := lck\<rparr> # rest')))"

text \<open>\<^verbatim>\<open>scoutfs_inode_index_unlock\<close> unlocks and frees every entry: the caller's list is
  empty afterwards.\<close>

fun scoutfs_inode_index_unlock :: "super_block \<Rightarrow> index_lock list \<Rightarrow> super_block" where
  "scoutfs_inode_index_unlock sb [] = sb"
| "scoutfs_inode_index_unlock sb (ind_lock # rest) =
     scoutfs_inode_index_unlock (scoutfs_unlock sb (il_lock ind_lock) DLM_LOCK_CW) rest"

text \<open>The label \<^verbatim>\<open>out\<close> of \<^verbatim>\<open>scoutfs_inode_index_try_lock_hold\<close>.\<close>

definition try_lock_hold_out ::
  "int \<Rightarrow> super_block \<Rightarrow> index_lock list \<Rightarrow> int \<times> super_block \<times> index_lock list" where
  "try_lock_hold_out ret sb list =
     (if ret \<noteq> 0 then (ret, scoutfs_inode_index_unlock sb list, []) else (ret, sb, list))"

definition scoutfs_inode_index_try_lock_hold ::
  "super_block \<Rightarrow> index_lock list \<Rightarrow> u64 \<Rightarrow> int \<times> super_block \<times> index_lock list" where
  "scoutfs_inode_index_try_lock_hold sb list seq =
     (case lock_index_locks sb (list_sort list) of (ret, sb1, list1) \<Rightarrow>
        if ret \<noteq> 0 then try_lock_hold_out ret sb1 list1
        else (case scoutfs_hold_trans sb1 of (ret, sb2) \<Rightarrow>
          if ret = 0 \<and> seq \<noteq> trans_seq sb2
          then try_lock_hold_out 1 (scoutfs_release_trans sb2) list1
          else try_lock_hold_out ret sb2 list1))"

text \<open>One pass of the body of the \<^verbatim>\<open>do ... while\<close> loop of
  \<^verbatim>\<open>scoutfs_inode_index_lock_hold\<close>.\<close>

definition lock_hold_attempt ::
  "index_range \<Rightarrow> super_block \<Rightarrow> scoutfs_inode_info \<Rightarrow> index_lock list \<Rightarrow> u64 \<Rightarrow> bool \<Rightarrow>
   int \<times> super_block \<times> index_lock list" where
  "lock_hold_attempt rng sb inode list new_size set_data_seq =
     (case scoutfs_inode_index_start sb of (ret, seq) \<Rightarrow>
        if ret \<noteq> 0 then (ret, sb, list)
        else (case scoutfs_inode_index_prepare rng sb list inode new_size set_data_seq of
                (ret, sb1, list1) \<Rightarrow>
          if ret \<noteq> 0 then (ret, sb1, list1)
          else scoutfs_inode_index_try_lock_hold sb1 list1 seq))"

text \<open>The number of sequence advances that other tasks still have in store.\<close>

definition advances :: "super_block \<Rightarrow> nat" where
  "advances sb = length (filter (\<lambda>c. c \<noteq> 0) (commits sb))"

text \<open>A call \<open>sb \<leadsto> sb'\<close> never adds advances, and uses one up when it sees the sequence
  change.\<close>

definition env_step :: "super_block \<Rightarrow> super_block \<Rightarrow> bool" where
  "env_step sb sb' =
     (advances sb' \<le> advances sb \<and> (trans_seq sb' \<noteq> trans_seq sb \<longrightarrow> advances sb' < advances sb))"

lemma env_step_refl: "env_step sb sb"
  by (simp add: env_step_def)

lemma env_step_same: "commits sb' = commits sb \<Longrightarrow> trans_seq sb' = trans_seq sb \<Longrightarrow> env_step sb sb'"
  by (simp add: env_step_def advances_def)

lemma env_step_trans: "env_step a b \<Longrightarrow> env_step b c \<Longrightarrow> env_step a c"
  by (auto simp: env_step_def)

lemma env_step_same_left:
  "commits b = commits a \<Longrightarrow> trans_seq b = trans_seq a \<Longrightarrow> env_step b c \<Longrightarrow> env_step a c"
  by (auto simp: env_step_def advances_def)

lemma env_step_same_right:
  "env_step a b \<Longrightarrow> commits c = commits b \<Longrightarrow> trans_seq c = trans_seq b \<Longrightarrow> env_step a c"
  by (auto simp: env_step_def advances_def)

lemma env_step_called_left: "env_step (called c a) b \<Longrightarrow> env_step a b"
  by (simp add: env_step_def advances_def called_def)

lemma called_env: "commits (called c sb) = commits sb \<and> trans_seq (called c sb) = trans_seq sb"
  by (simp add: called_def)

lemma take_fault_env:
  "take_fault sb = (e, sb') \<Longrightarrow> commits sb' = commits sb \<and> trans_seq sb' = trans_seq sb"
  by (auto simp: take_fault_def split: list.splits)

lemma env_commit_step: "env_step sb (env_commit sb)"
  by (auto simp: env_commit_def env_step_def advances_def split: list.splits)

lemma acquire_env: "acquire sb n m = (ret, lck, sb') \<Longrightarrow> env_step sb sb' \<and> ret \<le> 0"
proof -
  assume a: "acquire sb n m = (ret, lck, sb')"
  obtain e sb1 where tf: "take_fault (env_commit sb) = (e, sb1)"
    by (cases "take_fault (env_commit sb)")
  from take_fault_env [OF tf] env_commit_step [of sb] have s1: "env_step sb sb1"
    by (auto intro: env_step_same_right)
  from a tf have "ret \<le> 0 \<and> commits sb' = commits sb1 \<and> trans_seq sb' = trans_seq sb1"
    by (auto simp: acquire_def split: if_splits)
  with s1 show ?thesis by (auto intro: env_step_same_right)
qed

lemma scoutfs_lock_inode_index_env:
  "scoutfs_lock_inode_index sb m ty major i = (ret, lck, sb') \<Longrightarrow> env_step sb sb' \<and> ret \<le> 0"
  unfolding scoutfs_lock_inode_index_def
  by (drule acquire_env) (auto dest: env_step_called_left)

lemma scoutfs_lock_ino_env:
  "scoutfs_lock_ino sb m i = (ret, lck, sb') \<Longrightarrow> env_step sb sb' \<and> ret \<le> 0"
  unfolding scoutfs_lock_ino_def
  by (drule acquire_env) (auto dest: env_step_called_left)

lemma scoutfs_unlock_env:
  "commits (scoutfs_unlock sb lck m) = commits sb \<and> trans_seq (scoutfs_unlock sb lck m) = trans_seq sb"
  by (simp add: scoutfs_unlock_def called_def split: option.splits)

lemma scoutfs_release_trans_env:
  "commits (scoutfs_release_trans sb) = commits sb \<and>
   trans_seq (scoutfs_release_trans sb) = trans_seq sb"
  by (simp add: scoutfs_release_trans_def called_def)

lemma scoutfs_hold_trans_env:
  "scoutfs_hold_trans sb = (ret, sb') \<Longrightarrow> env_step sb sb' \<and> ret \<le> 0"
proof -
  assume a: "scoutfs_hold_trans sb = (ret, sb')"
  obtain e sb1 where tf: "take_fault (env_commit (called Hold_trans sb)) = (e, sb1)"
    by (cases "take_fault (env_commit (called Hold_trans sb))")
  have "env_step sb (env_commit (called Hold_trans sb))"
    using env_commit_step [of "called Hold_trans sb"]
    by (rule env_step_called_left)
  with take_fault_env [OF tf] have s1: "env_step sb sb1"
    by (auto intro: env_step_same_right)
  from a tf have "ret \<le> 0 \<and> commits sb' = commits sb1 \<and> trans_seq sb' = trans_seq sb1"
    by (auto simp: scoutfs_hold_trans_def split: if_splits)
  with s1 show ?thesis by (auto intro: env_step_same_right)
qed

lemma scoutfs_inode_index_unlock_env:
  "commits (scoutfs_inode_index_unlock sb list) = commits sb \<and>
   trans_seq (scoutfs_inode_index_unlock sb list) = trans_seq sb"
  by (induction list arbitrary: sb) (auto simp: scoutfs_unlock_env)

lemma lock_index_locks_env:
  "lock_index_locks sb list = (ret, sb', list') \<Longrightarrow> env_step sb sb' \<and> ret \<le> 0"
proof (induction list arbitrary: sb ret sb' list')
  case Nil
  then show ?case by (simp add: env_step_refl)
next
  case (Cons l ls)
  obtain r lck sb1 where a: "scoutfs_lock_inode_index sb DLM_LOCK_CW (il_type l) (il_major l) (il_ino l) = (r, lck, sb1)"
    by (cases "scoutfs_lock_inode_index sb DLM_LOCK_CW (il_type l) (il_major l) (il_ino l)")
  note e1 = scoutfs_lock_inode_index_env [OF a]
  show ?case
  proof (cases "r = 0")
    case False
    with Cons.prems a e1 show ?thesis by auto
  next
    case True
    obtain r2 sb2 ls2 where b: "lock_index_locks sb1 ls = (r2, sb2, ls2)"
      by (cases "lock_index_locks sb1 ls")
    from Cons.IH [OF b] e1 have "env_step sb sb2 \<and> r2 \<le> 0"
      by (auto intro: env_step_trans)
    with Cons.prems a b True show ?thesis by auto
  qed
qed

lemma try_lock_hold_out_env:
  "try_lock_hold_out ret sb list = (ret', sb', list') \<Longrightarrow>
   ret' = ret \<and> commits sb' = commits sb \<and> trans_seq sb' = trans_seq sb"
  by (auto simp: try_lock_hold_out_def scoutfs_inode_index_unlock_env split: if_splits)

lemma scoutfs_inode_index_try_lock_hold_env:
  assumes "scoutfs_inode_index_try_lock_hold sb list seq = (ret, sb', list')"
  shows "env_step sb sb' \<and> (0 < ret \<longrightarrow> trans_seq sb' \<noteq> seq)"
proof -
  obtain r1 sb1 l1 where a: "lock_index_locks sb (list_sort list) = (r1, sb1, l1)"
    by (cases "lock_index_locks sb (list_sort list)")
  note e1 = lock_index_locks_env [OF a]
  show ?thesis
  proof (cases "r1 = 0")
    case False
    with assms a have "try_lock_hold_out r1 sb1 l1 = (ret, sb', list')"
      by (simp add: scoutfs_inode_index_try_lock_hold_def)
    from try_lock_hold_out_env [OF this] e1 show ?thesis
      by (auto intro: env_step_same_right)
  next
    case True
    obtain r2 sb2 where b: "scoutfs_hold_trans sb1 = (r2, sb2)"
      by (cases "scoutfs_hold_trans sb1")
    note e2 = scoutfs_hold_trans_env [OF b]
    from e1 e2 have s2: "env_step sb sb2" by (auto intro: env_step_trans)
    show ?thesis
    proof (cases "r2 = 0 \<and> seq \<noteq> trans_seq sb2")
      case True
      with assms a b \<open>r1 = 0\<close>
      have "try_lock_hold_out 1 (scoutfs_release_trans sb2) l1 = (ret, sb', list')"
        by (simp add: scoutfs_inode_index_try_lock_hold_def)
      from try_lock_hold_out_env [OF this] s2 True show ?thesis
        by (auto intro: env_step_same_right simp: scoutfs_release_trans_env)
    next
      case False
      with assms a b \<open>r1 = 0\<close>
      have "try_lock_hold_out r2 sb2 l1 = (ret, sb', list')"
        by (auto simp: scoutfs_inode_index_try_lock_hold_def)
      from try_lock_hold_out_env [OF this] s2 e2 show ?thesis
        by (auto intro: env_step_same_right)
    qed
  qed
qed

lemma kzalloc_env: "kzalloc sb = (ok, sb') \<Longrightarrow> commits sb' = commits sb \<and> trans_seq sb' = trans_seq sb"
  by (auto simp: kzalloc_def called_env split: prod.splits dest!: take_fault_env)

lemma add_index_lock_env:
  "add_index_lock rng sb list i type major minor = (ret, sb', list') \<Longrightarrow>
   commits sb' = commits sb \<and> trans_seq sb' = trans_seq sb \<and> ret \<le> 0"
  by (auto simp: add_index_lock_def errno_defs split: prod.splits if_splits dest!: kzalloc_env)

lemma prepare_index_items_env:
  "prepare_index_items rng sb si list i mode type major minor = (ret, sb', list') \<Longrightarrow>
   commits sb' = commits sb \<and> trans_seq sb' = trans_seq sb \<and> ret \<le> 0"
  by (auto simp: prepare_index_items_def split: prod.splits if_splits option.splits
      dest!: add_index_lock_env)

lemma prepare_indices_loop_env:
  "prepare_indices_loop rng sb list si i mode ret upds = (ret', sb', list') \<Longrightarrow> ret \<le> 0 \<Longrightarrow>
   commits sb' = commits sb \<and> trans_seq sb' = trans_seq sb \<and> ret' \<le> 0"
proof (induction upds arbitrary: sb list ret)
  case Nil
  then show ?case by simp
next
  case (Cons u us)
  obtain type major minor where u: "u = (type, major, minor)" by (cases u)
  show ?case
  proof (cases "inode_has_index mode type")
    case False
    with Cons.prems u show ?thesis by (auto dest: Cons.IH)
  next
    case True
    obtain r1 sb1 l1 where a: "prepare_index_items rng sb si list i mode type major minor = (r1, sb1, l1)"
      by (cases "prepare_index_items rng sb si list i mode type major minor")
    note e1 = prepare_index_items_env [OF a]
    show ?thesis
    proof (cases "r1 = 0")
      case False
      with Cons.prems u True a e1 show ?thesis by auto
    next
      case r0: True
      with Cons.prems u True a have "prepare_indices_loop rng sb1 l1 si i mode 0 us = (ret', sb', list')"
        by simp
      from Cons.IH [OF this] e1 show ?thesis by simp
    qed
  qed
qed

lemma scoutfs_inode_index_prepare_env:
  "scoutfs_inode_index_prepare rng sb list inode new_size sds = (ret, sb', list') \<Longrightarrow>
   commits sb' = commits sb \<and> trans_seq sb' = trans_seq sb \<and> ret \<le> 0"
  unfolding scoutfs_inode_index_prepare_def prepare_indices_def
  by (drule prepare_indices_loop_env) auto

lemma lock_hold_attempt_env:
  assumes "lock_hold_attempt rng sb inode list new_size sds = (ret, sb', list')"
  shows "env_step sb sb' \<and> (0 < ret \<longrightarrow> advances sb' < advances sb)"
proof -
  obtain r1 sb1 l1 where a: "scoutfs_inode_index_prepare rng sb list inode new_size sds = (r1, sb1, l1)"
    by (cases "scoutfs_inode_index_prepare rng sb list inode new_size sds")
  note e1 = scoutfs_inode_index_prepare_env [OF a]
  show ?thesis
  proof (cases "r1 = 0")
    case False
    with assms a e1 show ?thesis
      by (auto simp: lock_hold_attempt_def scoutfs_inode_index_start_def intro: env_step_same)
  next
    case True
    with assms a have t: "scoutfs_inode_index_try_lock_hold sb1 l1 (trans_seq sb) = (ret, sb', list')"
      by (simp add: lock_hold_attempt_def scoutfs_inode_index_start_def)
    from scoutfs_inode_index_try_lock_hold_env [OF t] e1
    have "env_step sb sb' \<and> (0 < ret \<longrightarrow> trans_seq sb' \<noteq> trans_seq sb)"
      by (auto intro: env_step_same_left)
    then show ?thesis by (auto simp: env_step_def)
  qed
qed

text \<open>\<^verbatim>\<open>scoutfs_inode_index_lock_hold\<close>: the loop runs again while the pass returns a
  positive value. The last component counts the passes.\<close>

function scoutfs_inode_index_lock_hold ::
  "index_range \<Rightarrow> super_block \<Rightarrow> scoutfs_inode_info \<Rightarrow> index_lock list \<Rightarrow> u64 \<Rightarrow> bool \<Rightarrow>
   int \<times> super_block \<times> index_lock list \<times> nat" where
  "scoutfs_inode_index_lock_hold rng sb inode list new_size set_data_seq =
     (case lock_hold_attempt rng sb inode list new_size set_data_seq of (ret, sb1, list1) \<Rightarrow>
        if 0 < ret then
          (case scoutfs_inode_index_lock_hold rng sb1 inode list1 new_size set_data_seq of
             (ret', sb', list', n) \<Rightarrow> (ret', sb', list', Suc n))
        else (ret, sb1, list1, 1))"
  by pat_completeness auto
termination
  apply (relation "measure (\<lambda>(rng, sb, inode, list, new_size, sds). advances sb)")
   apply simp
  apply (auto dest: lock_hold_attempt_env [OF sym])
  done

declare scoutfs_inode_index_lock_hold.simps [simp del]

section \<open>Deferred deletion\<close>

definition remove_index ::
  "index_range \<Rightarrow> super_block \<Rightarrow> u64 \<Rightarrow> u8 \<Rightarrow> u64 \<Rightarrow> u32 \<Rightarrow> index_lock list \<Rightarrow> int \<times> super_block" where
  "remove_index rng sb i type major minor ind_locks =
     (let key = Index_key type major minor i;
          lck = find_index_lock rng ind_locks type major minor i
      in case scoutfs_item_delete_force sb key lck of (ret, sb1) \<Rightarrow>
           (if ret = - ENOENT then 0 else ret, sb1))"

definition remove_index_items ::
  "index_range \<Rightarrow> super_block \<Rightarrow> u64 \<Rightarrow> scoutfs_inode \<Rightarrow> index_lock list \<Rightarrow> int \<times> super_block" where
  "remove_index_items rng sb i sinode ind_locks =
     (let mode = (ucast (di_mode sinode) :: u16) in
      case remove_index rng sb i SCOUTFS_INODE_INDEX_SIZE_TYPE (di_size sinode) 0 ind_locks of
        (ret, sb1) \<Rightarrow>
      case (if ret \<noteq> 0 then (ret, sb1)
            else remove_index rng sb1 i SCOUTFS_INODE_INDEX_META_SEQ_TYPE (di_meta_seq sinode) 0
                   ind_locks) of
        (ret, sb2) \<Rightarrow>
      if ret = 0 \<and> S_ISREG mode
      then remove_index rng sb2 i SCOUTFS_INODE_INDEX_DATA_SEQ_TYPE (di_data_seq sinode) 0 ind_locks
      else (ret, sb2))"

text \<open>\<^verbatim>\<open>sbi->node_id_lock\<close>, which the mount holds.\<close>

definition node_id_lock :: "super_block \<Rightarrow> scoutfs_lock option" where
  "node_id_lock sb = Some \<lparr>lock_name = Node_id_lock, refresh_gen = lock_gens sb Node_id_lock\<rparr>"

definition remove_orphan_item :: "super_block \<Rightarrow> u64 \<Rightarrow> int \<times> super_block" where
  "remove_orphan_item sb i =
     (let lck = node_id_lock sb;
          key = Orphan_key (node_id sb) i
      in case scoutfs_item_delete sb key lck of (ret, sb1) \<Rightarrow>
           (if ret = - ENOENT then 0 else ret, sb1))"

definition scoutfs_orphan_inode :: "super_block \<Rightarrow> scoutfs_inode_info \<Rightarrow> int \<times> super_block" where
  "scoutfs_orphan_inode sb inode =
     (let lck = node_id_lock sb;
          key = Orphan_key (node_id sb) (ino inode)
      in scoutfs_item_create sb key None lck)"

text \<open>One pass from the label \<^verbatim>\<open>retry\<close> of \<^verbatim>\<open>delete_inode_items\<close>.\<close>

definition delete_lock_attempt ::
  "index_range \<Rightarrow> super_block \<Rightarrow> index_lock list \<Rightarrow> u64 \<Rightarrow> u16 \<Rightarrow> scoutfs_inode \<Rightarrow>
   int \<times> super_block \<times> index_lock list" where
  "delete_lock_attempt rng sb ind_locks i mode sinode =
     (case scoutfs_inode_index_start sb of (ret, ind_seq) \<Rightarrow>
        if ret \<noteq> 0 then (ret, sb, ind_locks)
        else (case prepare_index_deletion rng sb ind_locks i mode sinode of (ret, sb1, list1) \<Rightarrow>
          if ret \<noteq> 0 then (ret, sb1, list1)
          else scoutfs_inode_index_try_lock_hold sb1 list1 ind_seq))"

lemma prepare_index_deletion_loop_env:
  "prepare_index_deletion_loop rng sb list i mode ret inds = (ret', sb', list') \<Longrightarrow> ret \<le> 0 \<Longrightarrow>
   commits sb' = commits sb \<and> trans_seq sb' = trans_seq sb \<and> ret' \<le> 0"
proof (induction inds arbitrary: sb list ret)
  case Nil
  then show ?case by simp
next
  case (Cons u us)
  obtain type major minor where u: "u = (type, major, minor)" by (cases u)
  show ?case
  proof (cases "inode_has_index mode type")
    case False
    with Cons.prems u show ?thesis by (auto dest: Cons.IH)
  next
    case True
    obtain r1 sb1 l1 where a: "add_index_lock rng sb list i type major minor = (r1, sb1, l1)"
      by (cases "add_index_lock rng sb list i type major minor")
    note e1 = add_index_lock_env [OF a]
    show ?thesis
    proof (cases "r1 = 0")
      case False
      with Cons.prems u True a e1 show ?thesis by auto
    next
      case r0: True
      with Cons.prems u True a
      have "prepare_index_deletion_loop rng sb1 l1 i mode 0 us = (ret', sb', list')"
        by simp
      from Cons.IH [OF this] e1 show ?thesis by simp
    qed
  qed
qed

lemma delete_lock_attempt_env:
  assumes "delete_lock_attempt rng sb ind_locks i mode sinode = (ret, sb', list')"
  shows "env_step sb sb' \<and> (0 < ret \<longrightarrow> advances sb' < advances sb)"
proof -
  obtain r1 sb1 l1 where a: "prepare_index_deletion rng sb ind_locks i mode sinode = (r1, sb1, l1)"
    by (cases "prepare_index_deletion rng sb ind_locks i mode sinode")
  then have "prepare_index_deletion_loop rng sb ind_locks i mode 0
       [(SCOUTFS_INODE_INDEX_SIZE_TYPE, di_size sinode, 0),
        (SCOUTFS_INODE_INDEX_META_SEQ_TYPE, di_meta_seq sinode, 0),
        (SCOUTFS_INODE_INDEX_DATA_SEQ_TYPE, di_data_seq sinode, 0)] = (r1, sb1, l1)"
    by (simp add: prepare_index_deletion_def)
  from prepare_index_deletion_loop_env [OF this]
  have e1: "commits sb1 = commits sb \<and> trans_seq sb1 = trans_seq sb \<and> r1 \<le> 0"
    by simp
  show ?thesis
  proof (cases "r1 = 0")
    case False
    with assms a e1 show ?thesis
      by (auto simp: delete_lock_attempt_def scoutfs_inode_index_start_def intro: env_step_same)
  next
    case True
    with assms a have t: "scoutfs_inode_index_try_lock_hold sb1 l1 (trans_seq sb) = (ret, sb', list')"
      by (simp add: delete_lock_attempt_def scoutfs_inode_index_start_def)
    from scoutfs_inode_index_try_lock_hold_env [OF t] e1
    have "env_step sb sb' \<and> (0 < ret \<longrightarrow> trans_seq sb' \<noteq> trans_seq sb)"
      by (auto intro: env_step_same_left)
    then show ?thesis by (auto simp: env_step_def)
  qed
qed

text \<open>The \<^verbatim>\<open>goto retry\<close> loop of \<^verbatim>\<open>delete_inode_items\<close>.\<close>

function delete_lock_retry ::
  "index_range \<Rightarrow> super_block \<Rightarrow> index_lock list \<Rightarrow> u64 \<Rightarrow> u16 \<Rightarrow> scoutfs_inode \<Rightarrow>
   int \<times> super_block \<times> index_lock list" where
  "delete_lock_retry rng sb ind_locks i mode sinode =
     (case delete_lock_attempt rng sb ind_locks i mode sinode of (ret, sb1, list1) \<Rightarrow>
        if 0 < ret then delete_lock_retry rng sb1 list1 i mode sinode
        else (ret, sb1, list1))"
  by pat_completeness auto
termination
  apply (relation "measure (\<lambda>(rng, sb, ind_locks, i, mode, sinode). advances sb)")
   apply simp
  apply (auto dest: delete_lock_attempt_env [OF sym])
  done

declare delete_lock_retry.simps [simp del]

text \<open>The label \<^verbatim>\<open>out\<close> of \<^verbatim>\<open>delete_inode_items\<close>.\<close>

definition delete_inode_items_out ::
  "int \<Rightarrow> bool \<Rightarrow> super_block \<Rightarrow> index_lock list \<Rightarrow> scoutfs_lock option \<Rightarrow> int \<times> super_block" where
  "delete_inode_items_out ret release sb ind_locks lck =
     (let sb1 = (if release then scoutfs_release_trans sb else sb);
          sb2 = scoutfs_inode_index_unlock sb1 ind_locks;
          sb3 = scoutfs_unlock sb2 lck DLM_LOCK_EX
      in (ret, sb3))"

definition delete_inode_items :: "index_range \<Rightarrow> super_block \<Rightarrow> u64 \<Rightarrow> int \<times> super_block" where
  "delete_inode_items rng sb i =
     (case scoutfs_lock_ino sb DLM_LOCK_EX i of (ret, lck, sb1) \<Rightarrow>
        if ret \<noteq> 0 then (ret, sb1)
        else
          (let key = Inode_key i in
           (case scoutfs_item_lookup_exact sb1 key lck of
              (Inl ret, sb2) \<Rightarrow>
                delete_inode_items_out (if ret = - ENOENT then 0 else ret) False sb2 [] lck
            | (Inr sinode, sb2) \<Rightarrow>
                (if di_nlink sinode \<noteq> 0 then delete_inode_items_out (- EIO) False sb2 [] lck
                 else
                   (let mode = (ucast (di_mode sinode) :: u16) in
                    (case delete_lock_retry rng sb2 [] i mode sinode of (ret, sb3, ind_locks) \<Rightarrow>
                       if ret \<noteq> 0 then delete_inode_items_out ret False sb3 ind_locks lck
                       else (case remove_index_items rng sb3 i sinode ind_locks of (ret, sb4) \<Rightarrow>
                         if ret \<noteq> 0 then delete_inode_items_out ret True sb4 ind_locks lck
                         else (case scoutfs_item_delete sb4 key lck of (ret, sb5) \<Rightarrow>
                           if ret \<noteq> 0 then delete_inode_items_out ret True sb5 ind_locks lck
                           else (case remove_orphan_item sb5 i of (ret, sb6) \<Rightarrow>
                             delete_inode_items_out ret True sb6 ind_locks lck)))))))))"

section \<open>Refreshing an inode\<close>

definition set_item_info :: "scoutfs_inode_info \<Rightarrow> scoutfs_inode \<Rightarrow> scoutfs_inode_info" where
  "set_item_info si sinode =
     si\<lparr>have_item := True,
        item_majors := (\<lambda>_. 0)
          (SCOUTFS_INODE_INDEX_SIZE_TYPE := di_size sinode,
           SCOUTFS_INODE_INDEX_META_SEQ_TYPE := di_meta_seq sinode,
           SCOUTFS_INODE_INDEX_DATA_SEQ_TYPE := di_data_seq sinode),
        item_minors := (\<lambda>_. 0)\<rparr>"

definition load_inode :: "scoutfs_inode_info \<Rightarrow> scoutfs_inode \<Rightarrow> scoutfs_inode_info" where
  "load_inode ci cinode =
     set_item_info
       (ci\<lparr>i_size := di_size cinode,
           i_nlink := di_nlink cinode,
           i_uid := di_uid cinode,
           i_gid := di_gid cinode,
           i_mode := ucast (di_mode cinode),
           i_rdev := di_rdev cinode,
           i_atime := di_atime cinode,
           i_mtime := di_mtime cinode,
           i_ctime := di_ctime cinode,
           meta_seq := di_meta_seq cinode,
           data_seq := di_data_seq cinode,
           data_version := di_data_version cinode,
           next_readdir_pos := di_next_readdir_pos cinode,
           flags := di_flags cinode\<rparr>)
       cinode"

text \<open>\<^verbatim>\<open>scoutfs_inode_refresh\<close>. \<open>None\<close> is the kernel halting in \<^verbatim>\<open>BUG_ON\<close>. The
  \<^verbatim>\<open>flags\<close> argument is not used by the function and is left out.\<close>

definition scoutfs_inode_refresh ::
  "super_block \<Rightarrow> scoutfs_inode_info \<Rightarrow> scoutfs_lock \<Rightarrow>
   (int \<times> scoutfs_inode_info \<times> super_block) option" where
  "scoutfs_inode_refresh sb si lck =
     (let refresh_gen = scoutfs_lock_refresh_gen lck in
      if last_refreshed si > refresh_gen then None
      else if last_refreshed si = refresh_gen then Some (0, si, sb)
      else if last_refreshed si < refresh_gen then
        (case scoutfs_item_lookup_exact sb (Inode_key (ino si)) (Some lck) of
           (Inl ret, sb1) \<Rightarrow> Some (ret, si, sb1)
         | (Inr sinode, sb1) \<Rightarrow>
             Some (0, (load_inode si sinode)\<lparr>last_refreshed := refresh_gen\<rparr>, sb1))
      else Some (0, si, sb))"

section \<open>Notions for the statements about deletion\<close>


text \<open>A call is quiet when it leaves the items alone.\<close>

definition quiet :: "super_block \<Rightarrow> super_block \<Rightarrow> bool" where
  "quiet sb sb' =
     (node_id sb' = node_id sb \<and> items sb' = items sb \<and> set (faults sb') \<subseteq> set (faults sb) \<and>
      (faults sb = [] \<longrightarrow> faults sb' = []))"




text \<open>The calls that only the deletes of items make.\<close>

fun is_item_delete :: "call \<Rightarrow> bool" where
  "is_item_delete (Item_delete k) = True"
| "is_item_delete c = False"

section \<open>Notions for the statements about index locks\<close>

text \<open>The locks that taking every entry of a list adds to the held locks.\<close>

definition names_of :: "index_lock list \<Rightarrow> (lock_name \<times> dlm_mode) multiset" where
  "names_of list =
     mset (map (\<lambda>l. (Index_lock (il_type l) (il_major l) (il_ino l), DLM_LOCK_CW)) list)"

text \<open>Every entry holds the lock of its range.\<close>

definition all_locked :: "index_lock list \<Rightarrow> bool" where
  "all_locked list =
     list_all (\<lambda>l. case il_lock l of None \<Rightarrow> False
                   | Some k \<Rightarrow> lock_name k = Index_lock (il_type l) (il_major l) (il_ino l)) list"


section \<open>Writeback tracking\<close>

text \<open>The red-black tree \<^verbatim>\<open>writeback_inodes\<close> is given by the inode numbers of its nodes in
  key order. The inode cache holds one \<^verbatim>\<open>scoutfs_inode_info\<close> per inode number, so an
  inode is named by its number and its \<^verbatim>\<open>writeback_node\<close> is linked
  (\<^verbatim>\<open>!RB_EMPTY_NODE\<close>) exactly when the number is in the tree. \<^verbatim>\<open>rb_first\<close>,
  \<^verbatim>\<open>rb_next\<close> and \<^verbatim>\<open>rb_erase\<close> are the kernel's, which are not part of the sources:
  the first node in key order, the next node in key order, and the tree without the node.
  Of the references that the walk takes and drops only the result of \<^verbatim>\<open>igrab\<close> is
  kept: dropping a reference the walk took itself frees no inode.\<close>

definition rb_first :: "u64 list \<Rightarrow> u64 option" where
  "rb_first tree = (case tree of [] \<Rightarrow> None | x # _ \<Rightarrow> Some x)"

definition rb_next :: "u64 list \<Rightarrow> u64 \<Rightarrow> u64 option" where
  "rb_next tree x = find (\<lambda>y. x < y) tree"

definition rb_erase :: "u64 \<Rightarrow> u64 list \<Rightarrow> u64 list" where
  "rb_erase x tree = removeAll x tree"

text \<open>\<^verbatim>\<open>insert_writeback_inode\<close> walks down from the root to the place of the new
  number and links it there; \<open>None\<close> is the \<^verbatim>\<open>BUG()\<close> when it meets a node of the same
  number.\<close>

fun insert_writeback_inode :: "u64 list \<Rightarrow> u64 \<Rightarrow> u64 list option" where
  "insert_writeback_inode [] ins = Some [ins]"
| "insert_writeback_inode (si # rest) ins =
     (if ins < si then Some (ins # si # rest)
      else if ins > si then map_option ((#) si) (insert_writeback_inode rest ins)
      else None)"

definition remove_writeback_inode :: "u64 list \<Rightarrow> u64 \<Rightarrow> u64 list" where
  "remove_writeback_inode tree si = (if si \<in> set tree then rb_erase si tree else tree)"

definition scoutfs_inode_queue_writeback :: "u64 list \<Rightarrow> u64 \<Rightarrow> u64 list option" where
  "scoutfs_inode_queue_writeback tree i =
     (if i \<notin> set tree then insert_writeback_inode tree i else Some tree)"

text \<open>How far the walk of \<^verbatim>\<open>scoutfs_inode_walk_writeback\<close> still has to go.\<close>

definition walk_left :: "u64 list \<Rightarrow> u64 option \<Rightarrow> nat" where
  "walk_left tree node =
     (case node of
        None \<Rightarrow> 0
      | Some si \<Rightarrow>
          if si \<in> set tree then 1 + card {y \<in> set tree. si < y} else card (set tree) + 2)"

lemma rb_next_Some: "rb_next tree x = Some y \<Longrightarrow> y \<in> set tree \<and> x < y"
  by (auto simp: rb_next_def find_Some_iff)

lemma rb_first_Some: "rb_first tree = Some y \<Longrightarrow> y \<in> set tree"
  by (auto simp: rb_first_def split: list.splits)

lemma walk_left_next: "walk_left tree (rb_next tree si) < walk_left tree (Some si)"
proof (cases "rb_next tree si")
  case None
  then show ?thesis by (simp add: walk_left_def)
next
  case (Some y)
  from rb_next_Some [OF Some] have y: "y \<in> set tree" "si < y" by simp_all
  have "{z \<in> set tree. y < z} \<subset> {z \<in> set tree. si < z}"
    using y by auto
  then have lt: "card {z \<in> set tree. y < z} < card {z \<in> set tree. si < z}"
    by (intro psubset_card_mono) auto
  have "card {z \<in> set tree. y < z} \<le> card (set tree)"
    by (intro card_mono) auto
  with lt Some y show ?thesis by (simp add: walk_left_def)
qed

lemma walk_left_erase:
  assumes "si \<in> set tree"
  shows "walk_left (rb_erase si tree) (rb_next tree si) < walk_left tree (Some si)"
proof (cases "rb_next tree si")
  case None
  then show ?thesis by (simp add: walk_left_def)
next
  case (Some y)
  from rb_next_Some [OF Some] have y: "y \<in> set tree" "si < y" by simp_all
  then have y': "y \<in> set (rb_erase si tree)" by (auto simp: rb_erase_def)
  have "{z \<in> set (rb_erase si tree). y < z} \<subset> {z \<in> set tree. si < z}"
    using y by (auto simp: rb_erase_def)
  then have "card {z \<in> set (rb_erase si tree). y < z} < card {z \<in> set tree. si < z}"
    by (intro psubset_card_mono) auto
  with Some y' assms show ?thesis by (simp add: walk_left_def)
qed

lemma walk_left_first:
  assumes "si \<notin> set tree"
  shows "walk_left tree (rb_first tree) < walk_left tree (Some si)"
proof (cases "rb_first tree")
  case None
  then show ?thesis by (simp add: walk_left_def)
next
  case (Some y)
  from rb_first_Some [OF Some] have y: "y \<in> set tree" .
  have "card {z \<in> set tree. y < z} \<le> card (set tree)"
    by (intro card_mono) auto
  with Some y assms show ?thesis by (simp add: walk_left_def)
qed

text \<open>The loop of \<^verbatim>\<open>scoutfs_inode_walk_writeback\<close>. \<open>igrab\<close> says whether a reference to
  the inode can be taken, \<open>fdatawrite\<close> and \<open>fdatawait\<close> are the results of
  \<^verbatim>\<open>filemap_fdatawrite\<close> and \<^verbatim>\<open>filemap_fdatawait\<close> on its mapping. \<open>ret\<close> is the value
  of the C variable, which starts uninitialised, and \<open>visited\<close> lists the inodes written
  or waited for so far.\<close>

function walk_writeback_loop ::
  "(u64 \<Rightarrow> bool) \<Rightarrow> (u64 \<Rightarrow> int) \<Rightarrow> (u64 \<Rightarrow> int) \<Rightarrow> bool \<Rightarrow> u64 list \<Rightarrow> u64 option \<Rightarrow> int \<Rightarrow>
   u64 list \<Rightarrow> int \<times> u64 list \<times> u64 list" where
  "walk_writeback_loop igrab fdatawrite fdatawait write tree node ret visited =
     (case node of
        None \<Rightarrow> (ret, tree, visited)
      | Some si \<Rightarrow>
          if \<not> igrab si
          then walk_writeback_loop igrab fdatawrite fdatawait write tree (rb_next tree si) ret visited
          else
            let ret' = (if write then fdatawrite si else fdatawait si) in
            if ret' \<noteq> 0 then (ret', tree, visited @ [si])
            else
              walk_writeback_loop igrab fdatawrite fdatawait write
                (if \<not> write then remove_writeback_inode tree si else tree)
                (if si \<notin> set tree then rb_first tree else rb_next tree si)
                ret' (visited @ [si]))"
  by pat_completeness auto
termination
proof (relation "measure (\<lambda>(igrab, fdatawrite, fdatawait, write, tree, node, ret, visited).
          walk_left tree node)", goal_cases)
  case 1
  show ?case by simp
next
  case (2 igrab fdw fdwait wr tree node ret visited si)
  then show ?case by (simp add: walk_left_next)
next
  case (3 igrab fdw fdwait wr tree node ret visited si ret')
  then show ?case
    by (auto simp: remove_writeback_inode_def walk_left_next walk_left_erase walk_left_first)
qed

declare walk_writeback_loop.simps [simp del]

definition scoutfs_inode_walk_writeback ::
  "(u64 \<Rightarrow> bool) \<Rightarrow> (u64 \<Rightarrow> int) \<Rightarrow> (u64 \<Rightarrow> int) \<Rightarrow> u64 list \<Rightarrow> bool \<Rightarrow> int \<Rightarrow>
   int \<times> u64 list \<times> u64 list" where
  "scoutfs_inode_walk_writeback igrab fdatawrite fdatawait tree write ret =
     walk_writeback_loop igrab fdatawrite fdatawait write tree (rb_first tree) ret []"

section \<open>The pool of free inode numbers\<close>

text \<open>\<^verbatim>\<open>struct free_ino_pool\<close>; the spin lock and the wait queue are in the steps below.\<close>

record free_ino_pool =
  pool_ino :: u64
  pool_nr :: u64
  in_flight :: bool

text \<open>\<^verbatim>\<open>~0ULL\<close>.\<close>

definition ALL_ONES :: u64 where
  "ALL_ONES = - 1"

definition scoutfs_inode_fill_pool :: "free_ino_pool \<Rightarrow> u64 \<Rightarrow> u64 \<Rightarrow> free_ino_pool" where
  "scoutfs_inode_fill_pool pool i nr = pool\<lparr>pool_ino := i, pool_nr := nr, in_flight := False\<rparr>"

text \<open>Where a call of \<^verbatim>\<open>scoutfs_alloc_ino\<close> stands between two of its steps. A step is
  what the call does without another task getting in between: a stretch under the spin
  lock, the call of \<^verbatim>\<open>scoutfs_client_alloc_inodes\<close>, or the test of the wait condition.
  \<^item> \<open>Entry\<close>: at the start of the function.
  \<^item> \<open>Request\<close>: the lock is dropped with \<^verbatim>\<open>request = true\<close>; the request is not sent yet.
  \<^item> \<open>Send_failed ret\<close>: sending the request returned \<open>ret\<close>; \<open>in_flight\<close> is still set.
  \<^item> \<open>Wait\<close>: in \<^verbatim>\<open>wait_event_interruptible\<close>.
  \<^item> \<open>Woken\<close>: the wait returned 0; the lock is not retaken yet.
  \<^item> \<open>Return ret i\<close>: the call returned \<open>ret\<close> with \<^verbatim>\<open>*ino = i\<close>.\<close>

datatype alloc_pc =
    Entry
  | Request
  | Send_failed int
  | Wait
  | Woken
  | Return int u64

text \<open>From the test of the \<^verbatim>\<open>while\<close> condition, under the lock, to the next unlock.\<close>

definition alloc_locked :: "free_ino_pool \<Rightarrow> free_ino_pool \<times> alloc_pc" where
  "alloc_locked pool =
     (if pool_nr pool = 0 \<and> pool_ino pool \<noteq> ALL_ONES then
        (if in_flight pool then (pool, Wait)
         else (pool\<lparr>in_flight := True\<rparr>, Request))
      else if pool_nr pool = 0 then (pool, Return (- ENOSPC) 0)
      else (pool\<lparr>pool_ino := pool_ino pool + 1, pool_nr := pool_nr pool - 1\<rparr>,
            Return 0 (pool_ino pool)))"

text \<open>The calls in progress, the pool they share, the number of requests sent to the
  server so far (\<open>requests\<close>) and the number of those that went out and are not answered
  yet (\<open>pending\<close>).\<close>

record alloc_sys =
  pool :: free_ino_pool
  threads :: "alloc_pc list"
  requests :: nat
  pending :: nat

text \<open>What happens next:
  \<^item> \<open>Run t\<close>: call \<open>t\<close> takes its next step;
  \<^item> \<open>Send t ret\<close>: \<^verbatim>\<open>scoutfs_client_alloc_inodes\<close> of call \<open>t\<close> returns \<open>ret\<close>;
  \<^item> \<open>Signal t\<close>: a signal ends the wait of call \<open>t\<close>, whose condition does not hold;
  \<^item> \<open>Reply i nr\<close>: the answer to a pending request arrives and the network layer calls
    \<^verbatim>\<open>scoutfs_inode_fill_pool\<close>.\<close>

datatype event =
    Run nat
  | Send nat int
  | Signal nat
  | Reply u64 u64

definition set_thread :: "alloc_sys \<Rightarrow> nat \<Rightarrow> alloc_pc \<Rightarrow> alloc_sys" where
  "set_thread s t pc = s\<lparr>threads := (threads s)[t := pc]\<rparr>"

text \<open>One step of the system; \<open>None\<close> when the event cannot happen in the state.\<close>

fun step :: "event \<Rightarrow> alloc_sys \<Rightarrow> alloc_sys option" where
  "step (Run t) s =
     (if \<not> t < length (threads s) then None
      else (case threads s ! t of
              Entry \<Rightarrow>
                (case alloc_locked (pool s) of (p, pc) \<Rightarrow> Some (set_thread (s\<lparr>pool := p\<rparr>) t pc))
            | Woken \<Rightarrow>
                (case alloc_locked (pool s) of (p, pc) \<Rightarrow> Some (set_thread (s\<lparr>pool := p\<rparr>) t pc))
            | Send_failed ret \<Rightarrow>
                Some (set_thread (s\<lparr>pool := (pool s)\<lparr>in_flight := False\<rparr>\<rparr>) t (Return ret 0))
            | Wait \<Rightarrow> (if in_flight (pool s) then None else Some (set_thread s t Woken))
            | Request \<Rightarrow> None
            | Return ret i \<Rightarrow> None))"
| "step (Send t ret) s =
     (if t < length (threads s) \<and> threads s ! t = Request
      then (if ret \<noteq> 0
            then Some (set_thread (s\<lparr>requests := Suc (requests s)\<rparr>) t (Send_failed ret))
            else Some (set_thread (s\<lparr>requests := Suc (requests s), pending := Suc (pending s)\<rparr>) t Wait))
      else None)"
| "step (Signal t) s =
     (if t < length (threads s) \<and> threads s ! t = Wait \<and> in_flight (pool s)
      then Some (set_thread s t (Return (- ERESTARTSYS) 0))
      else None)"
| "step (Reply i nr) s =
     (if 0 < pending s
      then Some (s\<lparr>pool := scoutfs_inode_fill_pool (pool s) i nr, pending := pending s - 1\<rparr>)
      else None)"

fun run :: "event list \<Rightarrow> alloc_sys \<Rightarrow> alloc_sys option" where
  "run [] s = Some s"
| "run (ev # evs) s = (case step ev s of None \<Rightarrow> None | Some s' \<Rightarrow> run evs s')"

text \<open>\<open>k\<close> calls that have just been made, on a pool with no request on its way.\<close>

definition alloc_init :: "free_ino_pool \<Rightarrow> nat \<Rightarrow> alloc_sys" where
  "alloc_init p k = \<lparr>pool = p, threads = replicate k Entry, requests = 0, pending = 0\<rparr>"

text \<open>Counting the calls of a kind.\<close>

definition count_pc :: "(alloc_pc \<Rightarrow> bool) \<Rightarrow> alloc_sys \<Rightarrow> nat" where
  "count_pc P s = sum_list (map (\<lambda>pc. if P pc then 1 else 0) (threads s))"


fun is_return :: "alloc_pc \<Rightarrow> bool" where
  "is_return (Return ret i) = True"
| "is_return pc = False"

definition unfinished :: "alloc_sys \<Rightarrow> nat" where
  "unfinished s = count_pc (\<lambda>pc. \<not> is_return pc) s"




text \<open>The steps that the calls of a settled system still have to take.\<close>

fun steps_left :: "alloc_pc \<Rightarrow> nat" where
  "steps_left Entry = 1"
| "steps_left Woken = 1"
| "steps_left Wait = 2"
| "steps_left pc = 0"

definition work_left :: "alloc_sys \<Rightarrow> nat" where
  "work_left s = sum_list (map steps_left (threads s))"


section \<open>Concrete inputs\<close>

definition example_sb :: super_block where
  "example_sb = \<lparr>items = Map.empty, faults = [], commits = [], trans_seq = 1, node_id = 1,
     lock_gens = (\<lambda>_. 1), held_locks = {#}, trans_holds = 0, trace = []\<rparr>"

definition example_ts :: scoutfs_timespec where
  "example_ts = \<lparr>sec = 0, nsec = 0\<rparr>"

text \<open>A regular file (mode 0100644) of size 10 and no links, written in transaction 1.\<close>

definition example_sinode :: scoutfs_inode where
  "example_sinode = \<lparr>di_size = 10, di_nlink = 0, di_uid = 0, di_gid = 0, di_mode = 0x81A4,
     di_rdev = 0, di_atime = example_ts, di_ctime = example_ts, di_mtime = example_ts,
     di_meta_seq = 1, di_data_seq = 1, di_data_version = 0, di_next_readdir_pos = 2,
     di_flags = 0\<rparr>"

text \<open>Inode 7 in memory, not yet refreshed from its item.\<close>

definition example_si :: scoutfs_inode_info where
  "example_si = \<lparr>ino = 7, i_size = 0, i_nlink = 0, i_uid = 0, i_gid = 0, i_mode = 0,
     i_rdev = 0, i_atime = example_ts, i_mtime = example_ts, i_ctime = example_ts,
     meta_seq = 0, data_seq = 0, data_version = 0, next_readdir_pos = 0, flags = 0,
     have_item = False, item_majors = (\<lambda>_. 0), item_minors = (\<lambda>_. 0),
     last_refreshed = 0\<rparr>"

text \<open>Every index item falls into one lock range per type.\<close>

definition example_rng :: index_range where
  "example_rng type major i = (0, 0, 0)"

definition example_lock :: scoutfs_lock where
  "example_lock = \<lparr>lock_name = Ino_lock 7, refresh_gen = 1\<rparr>"

text \<open>The store of inode 7 after its last unlink: the inode item, its three index items
  and its orphan item.\<close>

definition example_items :: "key \<rightharpoonup> scoutfs_inode option" where
  "example_items =
     [Inode_key 7 \<mapsto> Some example_sinode,
      Index_key SCOUTFS_INODE_INDEX_SIZE_TYPE 10 0 7 \<mapsto> None,
      Index_key SCOUTFS_INODE_INDEX_META_SEQ_TYPE 1 0 7 \<mapsto> None,
      Index_key SCOUTFS_INODE_INDEX_DATA_SEQ_TYPE 1 0 7 \<mapsto> None,
      Orphan_key 1 7 \<mapsto> None]"

text \<open>Inode 7 with one link, as loaded from its item: size 10, both sequences 1.\<close>

definition example_inode :: scoutfs_inode_info where
  "example_inode = load_inode example_si (example_sinode\<lparr>di_nlink := 1\<rparr>)"


text \<open>The pool as \<^verbatim>\<open>scoutfs_inode_setup\<close> leaves it: zeroed.\<close>

definition example_pool :: free_ino_pool where
  "example_pool = \<lparr>pool_ino = 0, pool_nr = 0, in_flight = False\<rparr>"



section \<open>Index updates, missing records and refresh\<close>

lemma will_del_imp_ins: "will_del_index si type major minor \<Longrightarrow> will_ins_index si type major minor"
  by (auto simp: will_del_index_def will_ins_index_def split: option.splits)

text \<open>Claim C1. In \<^verbatim>\<open>update_index_items\<close>, when the create of the new index item
  returned 0 and the forced delete of the old item then fails with \<open>r\<close>, the function
  deletes the item it has just created; it returns \<open>r\<close>, the error of the failed delete,
  when that undo returns 0 (and the created item is gone), and it halts in \<^verbatim>\<open>BUG_ON\<close>
  when the undo fails: the failure of the undo is never returned.\<close>

theorem update_index_items_undo:
  assumes del: "si = Some s" "will_del_index si type major minor"
    and cr: "scoutfs_item_create_force sb (Index_key type major minor i) None
               (find_index_lock rng lock_list type major minor i) = (0, sb1)"
    and df: "scoutfs_item_delete_force sb1 (Index_key type (item_majors s type) (item_minors s type) i)
               (find_index_lock rng lock_list type (item_majors s type) (item_minors s type) i) = (r, sb2)"
            "r \<noteq> 0"
    and undo: "scoutfs_item_delete sb2 (Index_key type major minor i)
               (find_index_lock rng lock_list type major minor i) = (err, sb3)"
  shows "update_index_items rng sb si i type major minor lock_list =
           (if err \<noteq> 0 then None else Some (r, sb3)) \<and>
         trace sb3 = trace sb2 @ [Item_delete (Index_key type major minor i)] \<and>
         (err = 0 \<longrightarrow> items sb3 (Index_key type major minor i) = None)"
proof -
  have ins: "will_ins_index si type major minor"
    using del(2) by (rule will_del_imp_ins)
  have run: "update_index_items rng sb si i type major minor lock_list =
           (if err \<noteq> 0 then None else Some (r, sb3))"
    using ins del cr df undo by (simp add: update_index_items_def Let_def)
  have tr: "trace sb3 = trace sb2 @ [Item_delete (Index_key type major minor i)]"
    using undo
    by (auto simp: scoutfs_item_delete_def take_fault_def called_def
        split: list.splits if_splits)
  have gone: "err = 0 \<longrightarrow> items sb3 (Index_key type major minor i) = None"
    using undo
    by (auto simp: scoutfs_item_delete_def take_fault_def called_def errno_defs
        split: list.splits if_splits)
  from run tr gone show ?thesis by simp
qed

text \<open>Inode 7 moves from size 10 to size 20; the create goes through, the delete of the
  old item fails with an I/O error and the undo goes through.\<close>

theorem update_index_items_undo_witness:
  "\<exists>sb3. update_index_items example_rng (example_sb\<lparr>faults := [0, - EIO, 0]\<rparr>)
            (Some (load_inode example_si example_sinode)) 7 SCOUTFS_INODE_INDEX_SIZE_TYPE 20 0 [] =
            Some (- EIO, sb3) \<and>
          items sb3 (Index_key SCOUTFS_INODE_INDEX_SIZE_TYPE 20 0 7) = None"
proof -
  let ?T = SCOUTFS_INODE_INDEX_SIZE_TYPE
  let ?s = "load_inode example_si example_sinode"
  let ?sb = "example_sb\<lparr>faults := [0, - EIO, 0]\<rparr>"
  let ?sb1 = "example_sb\<lparr>faults := [- EIO, 0], trace := [Item_create_force (Index_key ?T 20 0 7)],
                items := [Index_key ?T 20 0 7 \<mapsto> None]\<rparr>"
  let ?sb2 = "?sb1\<lparr>faults := [0], trace := [Item_create_force (Index_key ?T 20 0 7),
                Item_delete_force (Index_key ?T 10 0 7)]\<rparr>"
  let ?sb3 = "?sb2\<lparr>faults := [], trace := [Item_create_force (Index_key ?T 20 0 7),
                Item_delete_force (Index_key ?T 10 0 7), Item_delete (Index_key ?T 20 0 7)],
                items := Map.empty\<rparr>"
  have maj: "item_majors ?s ?T = 10" and mnr: "item_minors ?s ?T = 0" and hv: "have_item ?s"
    by (simp_all add: load_inode_def set_item_info_def example_sinode_def index_type_defs)
  have "update_index_items example_rng ?sb (Some ?s) 7 ?T 20 0 [] = Some (- EIO, ?sb3) \<and>
        items ?sb3 (Index_key ?T 20 0 7) = None"
    using update_index_items_undo [of "Some ?s" ?s ?T 20 0 ?sb 7 example_rng "[]" ?sb1 "- EIO" ?sb2 0 ?sb3]
    by (simp add: maj mnr hv example_sb_def will_del_index_def scoutfs_item_create_force_def
        scoutfs_item_delete_force_def scoutfs_item_delete_def take_fault_def called_def errno_defs)
  then show ?thesis by blast
qed

text \<open>The same update when the undo fails as well: the kernel halts.\<close>

lemma update_index_items_undo_fails:
  "update_index_items example_rng (example_sb\<lparr>faults := [0, - EIO, - EIO]\<rparr>)
     (Some (load_inode example_si example_sinode)) 7 SCOUTFS_INODE_INDEX_SIZE_TYPE 20 0 [] = None"
  by (simp add: update_index_items_def will_ins_index_def will_del_index_def load_inode_def
      set_item_info_def example_sinode_def example_sb_def index_type_defs
      scoutfs_item_create_force_def scoutfs_item_delete_force_def scoutfs_item_delete_def
      take_fault_def called_def errno_defs Let_def)

text \<open>Claim C3. For every index type, when the inode info caches an item
  (\<open>have_item\<close>) whose major and minor equal the new ones, \<^verbatim>\<open>update_index_items\<close>
  returns 0 and makes no call at all, so no index item is created or deleted; hence
  running it a second time on the result gives the same result and the same items as
  running it once.\<close>

theorem update_index_items_unchanged:
  assumes "have_item s" "item_majors s type = major" "item_minors s type = minor"
  shows "update_index_items rng sb (Some s) i type major minor lock_list = Some (0, sb) \<and>
         (\<forall>r sb1. update_index_items rng sb (Some s) i type major minor lock_list = Some (r, sb1) \<longrightarrow>
            update_index_items rng sb1 (Some s) i type major minor lock_list = Some (r, sb1) \<and>
            items sb1 = items sb \<and> trace sb1 = trace sb)"
  using assms by (simp add: update_index_items_def will_ins_index_def)

text \<open>Inode 7 with the cached size 10 is updated to size 10.\<close>

theorem update_index_items_unchanged_witness:
  "update_index_items example_rng (example_sb\<lparr>items := example_items\<rparr>)
     (Some (load_inode example_si example_sinode)) 7 SCOUTFS_INODE_INDEX_SIZE_TYPE 10 0 [] =
   Some (0, example_sb\<lparr>items := example_items\<rparr>)"
  using update_index_items_unchanged [of "load_inode example_si example_sinode"
      SCOUTFS_INODE_INDEX_SIZE_TYPE 10 0 example_rng "example_sb\<lparr>items := example_items\<rparr>" 7 "[]"]
  by (simp add: load_inode_def set_item_info_def example_sinode_def index_type_defs)


lemma scoutfs_item_lookup_exact_items:
  "scoutfs_item_lookup_exact sb k lck = (res, sb') \<Longrightarrow>
   items sb' = items sb \<and> trace sb' = trace sb @ [Item_lookup_exact k] \<and>
   held_locks sb' = held_locks sb \<and> trans_holds sb' = trans_holds sb"
  by (auto simp: scoutfs_item_lookup_exact_def take_fault_def called_def
      split: list.splits if_splits option.splits)

lemma scoutfs_item_lookup_exact_Inl:
  "scoutfs_item_lookup_exact sb k lck = (Inl e, sb') \<Longrightarrow> e < 0"
  by (auto simp: scoutfs_item_lookup_exact_def take_fault_def called_def errno_defs
      split: list.splits if_splits option.splits)

lemma scoutfs_lock_ino_ok:
  "scoutfs_lock_ino sb m i = (0, lck, sb1) \<Longrightarrow>
   items sb1 = items sb \<and> trace sb1 = trace sb @ [Lock_ino m i] \<and>
   trans_holds sb1 = trans_holds sb \<and>
   held_locks sb1 = add_mset (Ino_lock i, m) (held_locks sb) \<and>
   (\<exists>l. lck = Some l \<and> lock_name l = Ino_lock i)"
  by (auto simp: scoutfs_lock_ino_def acquire_def take_fault_def called_def env_commit_def
      split: list.splits if_splits)

lemma scoutfs_unlock_Some:
  "lock_name l = n \<Longrightarrow>
   items (scoutfs_unlock sb (Some l) m) = items sb \<and>
   trace (scoutfs_unlock sb (Some l) m) = trace sb @ [Unlock (Some l) m] \<and>
   trans_holds (scoutfs_unlock sb (Some l) m) = trans_holds sb \<and>
   held_locks (scoutfs_unlock sb (Some l) m) = held_locks sb - {#(n, m)#}"
  by (simp add: scoutfs_unlock_def called_def)

text \<open>Without failures of the store, \<^verbatim>\<open>update_index_items\<close> returns 0 and leaves the items
  with the new index item and, when the inode info caches another one, without the old
  index item.\<close>

lemma update_index_items_clean:
  assumes "faults sb = []"
  shows "\<exists>sb1. update_index_items rng sb si i type major minor lock_list = Some (0, sb1) \<and>
           faults sb1 = [] \<and>
           items sb1 =
             (if \<not> will_ins_index si type major minor then items sb
              else case si of
                     None \<Rightarrow> (items sb)(Index_key type major minor i \<mapsto> None)
                   | Some s \<Rightarrow>
                       if will_del_index si type major minor
                       then (items sb)(Index_key type major minor i \<mapsto> None,
                              Index_key type (item_majors s type) (item_minors s type) i := None)
                       else (items sb)(Index_key type major minor i \<mapsto> None))"
  using assms
  by (cases si)
     (auto simp: update_index_items_def Let_def scoutfs_item_create_force_def
        scoutfs_item_delete_force_def take_fault_def called_def will_del_index_def
        will_ins_index_def)

text \<open>Hence running it twice with the same cached and new values leaves the same index
  items as running it once.\<close>

lemma update_index_items_twice:
  assumes "faults sb = []"
    and "update_index_items rng sb si i type major minor lock_list = Some (r, sb1)"
  shows "\<exists>sb2. update_index_items rng sb1 si i type major minor lock_list = Some (r, sb2) \<and>
           items sb2 = items sb1"
proof -
  from update_index_items_clean [OF assms(1), of rng si i type major minor lock_list] assms(2)
  have r: "r = 0" and f1: "faults sb1 = []"
    and i1: "items sb1 =
             (if \<not> will_ins_index si type major minor then items sb
              else case si of
                     None \<Rightarrow> (items sb)(Index_key type major minor i \<mapsto> None)
                   | Some s \<Rightarrow>
                       if will_del_index si type major minor
                       then (items sb)(Index_key type major minor i \<mapsto> None,
                              Index_key type (item_majors s type) (item_minors s type) i := None)
                       else (items sb)(Index_key type major minor i \<mapsto> None))"
    by auto
  from update_index_items_clean [OF f1, of rng si i type major minor lock_list]
  obtain sb2 where u2: "update_index_items rng sb1 si i type major minor lock_list = Some (0, sb2)"
    and i2: "items sb2 =
             (if \<not> will_ins_index si type major minor then items sb1
              else case si of
                     None \<Rightarrow> (items sb1)(Index_key type major minor i \<mapsto> None)
                   | Some s \<Rightarrow>
                       if will_del_index si type major minor
                       then (items sb1)(Index_key type major minor i \<mapsto> None,
                              Index_key type (item_majors s type) (item_minors s type) i := None)
                       else (items sb1)(Index_key type major minor i \<mapsto> None))"
    by blast
  have "items sb2 = items sb1"
    unfolding i2 i1
    by (cases si) (auto simp: will_del_index_def fun_upd_twist)
  with u2 r show ?thesis by simp
qed

text \<open>Claim C7. When \<^verbatim>\<open>delete_inode_items\<close> has taken the inode lock and the looked-up
  inode item has a link count that is not zero, it returns \<open>- EIO\<close> and removes nothing:
  the items are the ones before the call, and the only calls made are the lock, the lookup
  and the unlock, so no index item, inode item or orphan item is deleted.\<close>

theorem delete_inode_items_nlink_nonzero:
  assumes lck: "scoutfs_lock_ino sb DLM_LOCK_EX i = (0, lck, sb1)"
    and look: "scoutfs_item_lookup_exact sb1 (Inode_key i) lck = (Inr sinode, sb2)"
    and nlink: "di_nlink sinode \<noteq> 0"
  shows "\<exists>sb'. delete_inode_items rng sb i = (- EIO, sb') \<and> items sb' = items sb \<and>
           trace sb' = trace sb @ [Lock_ino DLM_LOCK_EX i, Item_lookup_exact (Inode_key i),
                                   Unlock lck DLM_LOCK_EX] \<and>
           held_locks sb' = held_locks sb \<and> trans_holds sb' = trans_holds sb"
proof -
  from scoutfs_lock_ino_ok [OF lck] obtain l where
    l: "lck = Some l" "lock_name l = Ino_lock i"
    and s1: "items sb1 = items sb" "trace sb1 = trace sb @ [Lock_ino DLM_LOCK_EX i]"
      "trans_holds sb1 = trans_holds sb"
      "held_locks sb1 = add_mset (Ino_lock i, DLM_LOCK_EX) (held_locks sb)"
    by blast
  note s2 = scoutfs_item_lookup_exact_items [OF look]
  note s3 = scoutfs_unlock_Some [OF l(2), of sb2 DLM_LOCK_EX]
  have run: "delete_inode_items rng sb i = (- EIO, scoutfs_unlock sb2 lck DLM_LOCK_EX)"
    using lck look nlink by (simp add: delete_inode_items_def delete_inode_items_out_def)
  show ?thesis
    using run s1 s2 s3 l(1) by simp
qed

text \<open>Inode 7 with its orphan item and a link count of 1.\<close>

theorem delete_inode_items_nlink_nonzero_witness:
  "fst (delete_inode_items example_rng
          (example_sb\<lparr>items := example_items(Inode_key 7 \<mapsto> Some (example_sinode\<lparr>di_nlink := 1\<rparr>))\<rparr>) 7)
     = - EIO \<and>
   items (snd (delete_inode_items example_rng
          (example_sb\<lparr>items := example_items(Inode_key 7 \<mapsto> Some (example_sinode\<lparr>di_nlink := 1\<rparr>))\<rparr>) 7))
     = example_items(Inode_key 7 \<mapsto> Some (example_sinode\<lparr>di_nlink := 1\<rparr>))"
proof -
  let ?it = "example_items(Inode_key 7 \<mapsto> Some (example_sinode\<lparr>di_nlink := 1\<rparr>))"
  let ?sb = "example_sb\<lparr>items := ?it\<rparr>"
  let ?l = "\<lparr>lock_name = Ino_lock 7, refresh_gen = 1\<rparr>"
  let ?sb1 = "?sb\<lparr>trace := [Lock_ino DLM_LOCK_EX 7], held_locks := {#(Ino_lock 7, DLM_LOCK_EX)#}\<rparr>"
  let ?sb2 = "?sb1\<lparr>trace := [Lock_ino DLM_LOCK_EX 7, Item_lookup_exact (Inode_key 7)]\<rparr>"
  have a: "scoutfs_lock_ino ?sb DLM_LOCK_EX 7 = (0, Some ?l, ?sb1)"
    by (simp add: scoutfs_lock_ino_def acquire_def take_fault_def called_def env_commit_def
        example_sb_def)
  have b: "scoutfs_item_lookup_exact ?sb1 (Inode_key 7) (Some ?l) =
             (Inr (example_sinode\<lparr>di_nlink := 1\<rparr>), ?sb2)"
    by (simp add: scoutfs_item_lookup_exact_def take_fault_def called_def example_sb_def)
  have c: "di_nlink (example_sinode\<lparr>di_nlink := 1\<rparr>) \<noteq> 0"
    by simp
  from delete_inode_items_nlink_nonzero [OF a b c, of example_rng]
  show ?thesis by (auto simp: example_sb_def)
qed

text \<open>Claim C8 says that \<^verbatim>\<open>delete_inode_items\<close> on an identifier without an inode item
  returns not-found. It does not: on an empty store, for inode 7, it returns 0.\<close>

theorem delete_inode_items_missing_is_ok:
  "fst (delete_inode_items example_rng example_sb 7) = 0 \<and>
   fst (delete_inode_items example_rng example_sb 7) \<noteq> - ENOENT \<and>
   items example_sb (Inode_key 7) = None"
  by (simp add: delete_inode_items_def delete_inode_items_out_def scoutfs_lock_ino_def
      acquire_def scoutfs_item_lookup_exact_def take_fault_def called_def env_commit_def
      example_sb_def errno_defs)

text \<open>Claim C8, amended. When the lookup of the inode item reports \<open>- ENOENT\<close>,
  \<^verbatim>\<open>delete_inode_items\<close> turns it into 0: it returns success, deletes nothing (an
  orphan item of the identifier stays) and makes no call but the lock, the lookup and the
  unlock.\<close>

theorem delete_inode_items_enoent:
  assumes lck: "scoutfs_lock_ino sb DLM_LOCK_EX i = (0, lck, sb1)"
    and look: "scoutfs_item_lookup_exact sb1 (Inode_key i) lck = (Inl (- ENOENT), sb2)"
  shows "\<exists>sb'. delete_inode_items rng sb i = (0, sb') \<and> items sb' = items sb \<and>
           trace sb' = trace sb @ [Lock_ino DLM_LOCK_EX i, Item_lookup_exact (Inode_key i),
                                   Unlock lck DLM_LOCK_EX]"
proof -
  from scoutfs_lock_ino_ok [OF lck] obtain l where
    l: "lck = Some l" "lock_name l = Ino_lock i"
    and s1: "items sb1 = items sb" "trace sb1 = trace sb @ [Lock_ino DLM_LOCK_EX i]"
    by blast
  note s2 = scoutfs_item_lookup_exact_items [OF look]
  note s3 = scoutfs_unlock_Some [OF l(2), of sb2 DLM_LOCK_EX]
  have run: "delete_inode_items rng sb i = (0, scoutfs_unlock sb2 lck DLM_LOCK_EX)"
    using lck look by (simp add: delete_inode_items_def delete_inode_items_out_def)
  show ?thesis
    using run s1 s2 s3 l(1) by simp
qed

text \<open>A store that holds only the orphan item of inode 7.\<close>

theorem delete_inode_items_enoent_witness:
  "fst (delete_inode_items example_rng (example_sb\<lparr>items := [Orphan_key 1 7 \<mapsto> None]\<rparr>) 7) = 0 \<and>
   items (snd (delete_inode_items example_rng (example_sb\<lparr>items := [Orphan_key 1 7 \<mapsto> None]\<rparr>) 7))
     = [Orphan_key 1 7 \<mapsto> None]"
proof -
  let ?sb = "example_sb\<lparr>items := [Orphan_key 1 7 \<mapsto> None]\<rparr>"
  let ?l = "\<lparr>lock_name = Ino_lock 7, refresh_gen = 1\<rparr>"
  let ?sb1 = "?sb\<lparr>trace := [Lock_ino DLM_LOCK_EX 7], held_locks := {#(Ino_lock 7, DLM_LOCK_EX)#}\<rparr>"
  let ?sb2 = "?sb1\<lparr>trace := [Lock_ino DLM_LOCK_EX 7, Item_lookup_exact (Inode_key 7)]\<rparr>"
  have a: "scoutfs_lock_ino ?sb DLM_LOCK_EX 7 = (0, Some ?l, ?sb1)"
    by (simp add: scoutfs_lock_ino_def acquire_def take_fault_def called_def env_commit_def
        example_sb_def)
  have b: "scoutfs_item_lookup_exact ?sb1 (Inode_key 7) (Some ?l) = (Inl (- ENOENT), ?sb2)"
    by (simp add: scoutfs_item_lookup_exact_def take_fault_def called_def example_sb_def)
  from delete_inode_items_enoent [OF a b, of example_rng]
  show ?thesis by (auto simp: example_sb_def)
qed

text \<open>Claim C10. When the inode's \<open>last_refreshed\<close> equals the refresh generation of
  the lock, \<^verbatim>\<open>scoutfs_inode_refresh\<close> returns 0 with the inode and the super block as they
  were: nothing is looked up and no field is written. Hence after a refresh that returned
  0, a refresh under any lock of the same generation is such a no-op, whatever the store
  holds by then.\<close>

theorem scoutfs_inode_refresh_same_gen:
  "(last_refreshed si = scoutfs_lock_refresh_gen lck \<longrightarrow>
      scoutfs_inode_refresh sb si lck = Some (0, si, sb)) \<and>
   (scoutfs_inode_refresh sb si lck = Some (0, si', sb') \<and>
    scoutfs_lock_refresh_gen lck' = scoutfs_lock_refresh_gen lck \<longrightarrow>
      scoutfs_inode_refresh sb'' si' lck' = Some (0, si', sb''))"
proof (intro conjI impI)
  assume "last_refreshed si = scoutfs_lock_refresh_gen lck"
  then show "scoutfs_inode_refresh sb si lck = Some (0, si, sb)"
    by (simp add: scoutfs_inode_refresh_def)
next
  assume a: "scoutfs_inode_refresh sb si lck = Some (0, si', sb') \<and>
    scoutfs_lock_refresh_gen lck' = scoutfs_lock_refresh_gen lck"
  have "last_refreshed si' = scoutfs_lock_refresh_gen lck"
  proof (cases "scoutfs_item_lookup_exact sb (Inode_key (ino si)) (Some lck)")
    case (Pair res sb1)
    show ?thesis
    proof (cases res)
      case (Inl e)
      with Pair have "e < 0" by (auto dest: scoutfs_item_lookup_exact_Inl)
      with a Pair Inl show ?thesis
        by (auto simp: scoutfs_inode_refresh_def Let_def split: if_splits)
    next
      case (Inr v)
      with a Pair show ?thesis
        by (auto simp: scoutfs_inode_refresh_def Let_def split: if_splits)
    qed
  qed
  with a show "scoutfs_inode_refresh sb'' si' lck' = Some (0, si', sb'')"
    by (simp add: scoutfs_inode_refresh_def)
qed

text \<open>Inode 7 is refreshed from its item under a lock of generation 1, which reads the
  item once; the second refresh changes nothing.\<close>

theorem scoutfs_inode_refresh_same_gen_witness:
  "\<exists>si' sb'. scoutfs_inode_refresh (example_sb\<lparr>items := example_items\<rparr>) example_si example_lock =
       Some (0, si', sb') \<and>
     i_size si' = 10 \<and> last_refreshed si' = 1 \<and>
     trace sb' = [Item_lookup_exact (Inode_key 7)] \<and>
     scoutfs_inode_refresh sb' si' example_lock = Some (0, si', sb')"
proof -
  let ?sb = "example_sb\<lparr>items := example_items\<rparr>"
  let ?si' = "(load_inode example_si example_sinode)\<lparr>last_refreshed := 1\<rparr>"
  let ?sb' = "?sb\<lparr>trace := [Item_lookup_exact (Inode_key 7)]\<rparr>"
  have a: "scoutfs_inode_refresh ?sb example_si example_lock = Some (0, ?si', ?sb')"
    by (simp add: scoutfs_inode_refresh_def scoutfs_lock_refresh_gen_def example_lock_def
        example_si_def scoutfs_item_lookup_exact_def take_fault_def called_def example_sb_def
        example_items_def)
  have b: "i_size ?si' = 10 \<and> last_refreshed ?si' = 1 \<and> trace ?sb' = [Item_lookup_exact (Inode_key 7)]"
    by (simp add: load_inode_def set_item_info_def example_sinode_def)
  from scoutfs_inode_refresh_same_gen [where si = example_si and lck = example_lock and sb = ?sb
      and si' = ?si' and sb' = ?sb' and lck' = example_lock and sb'' = ?sb'] a
  have "scoutfs_inode_refresh ?sb' ?si' example_lock = Some (0, ?si', ?sb')"
    by simp
  with a b show ?thesis by blast
qed


section \<open>Deferred deletion: the orphan item goes last\<close>



lemma quiet_called: "quiet sb (called c sb)"
  by (simp add: quiet_def called_def)

lemma quiet_env_commit: "quiet sb (env_commit sb)"
  by (simp add: quiet_def env_commit_def split: list.splits)

lemma take_fault_quiet:
  "take_fault sb = (e, sb') \<Longrightarrow> quiet sb sb' \<and> (faults sb = [] \<longrightarrow> e = 0) \<and>
     (e \<noteq> 0 \<longrightarrow> e \<in> set (faults sb))"
  by (auto simp: take_fault_def quiet_def split: list.splits)




























text \<open>Both \<^verbatim>\<open>remove_index\<close> and \<^verbatim>\<open>remove_orphan_item\<close> turn not-found into success.\<close>

lemma remove_index_enoent:
  "scoutfs_item_delete_force sb (Index_key type major minor i)
     (find_index_lock rng ind_locks type major minor i) = (- ENOENT, sb') \<Longrightarrow>
   remove_index rng sb i type major minor ind_locks = (0, sb')"
  by (simp add: remove_index_def)

lemma remove_orphan_item_enoent:
  "scoutfs_item_delete sb (Orphan_key (node_id sb) i) (node_id_lock sb) = (- ENOENT, sb') \<Longrightarrow>
   remove_orphan_item sb i = (0, sb')"
  by (simp add: remove_orphan_item_def)






lemma quiet_node_id: "quiet a b \<Longrightarrow> node_id b = node_id a"
  by (simp add: quiet_def)






section \<open>Deferred deletion: the order of the calls\<close>


lemma is_item_delete_neq [simp]:
  "is_item_delete c \<Longrightarrow> c \<noteq> Kzalloc" "is_item_delete c \<Longrightarrow> c \<noteq> Hold_trans"
  "is_item_delete c \<Longrightarrow> c \<noteq> Release_trans" "is_item_delete c \<Longrightarrow> c \<noteq> Unlock l m"
  "is_item_delete c \<Longrightarrow> c \<noteq> Lock_inode_index m t a b" "is_item_delete c \<Longrightarrow> c \<noteq> Lock_ino m a"
  "is_item_delete c \<Longrightarrow> c \<noteq> Item_lookup_exact k" "is_item_delete c \<Longrightarrow> c \<noteq> Item_delete_force k"
  "is_item_delete c \<Longrightarrow> Kzalloc \<noteq> c" "is_item_delete c \<Longrightarrow> Hold_trans \<noteq> c"
  "is_item_delete c \<Longrightarrow> Release_trans \<noteq> c" "is_item_delete c \<Longrightarrow> Unlock l m \<noteq> c"
  "is_item_delete c \<Longrightarrow> Lock_inode_index m t a b \<noteq> c" "is_item_delete c \<Longrightarrow> Lock_ino m a \<noteq> c"
  "is_item_delete c \<Longrightarrow> Item_lookup_exact k \<noteq> c" "is_item_delete c \<Longrightarrow> Item_delete_force k \<noteq> c"
  by (cases c; simp)+




lemma take_fault_trace: "take_fault sb = (e, sb') \<Longrightarrow> trace sb' = trace sb"
  by (auto simp: take_fault_def split: list.splits)

























section \<open>Deferred deletion: not-found is success\<close>













section \<open>The retry loop of the index locks\<close>


lemma acquire_ok:
  "acquire sb n m = (0, lck, sb') \<Longrightarrow>
   held_locks sb' = add_mset (n, m) (held_locks sb) \<and> trans_holds sb' = trans_holds sb \<and>
   (\<exists>k. lck = Some k \<and> lock_name k = n)"
  by (auto simp: acquire_def take_fault_def env_commit_def split: list.splits if_splits)

lemma scoutfs_lock_inode_index_ok:
  "scoutfs_lock_inode_index sb m ty major i = (0, lck, sb') \<Longrightarrow>
   held_locks sb' = add_mset (Index_lock ty major i, m) (held_locks sb) \<and>
   trans_holds sb' = trans_holds sb \<and> (\<exists>k. lck = Some k \<and> lock_name k = Index_lock ty major i)"
  unfolding scoutfs_lock_inode_index_def
  by (drule acquire_ok) (simp add: called_def)

lemma lock_index_locks_ok:
  "lock_index_locks sb list = (0, sb', list') \<Longrightarrow>
   held_locks sb' = held_locks sb + names_of list \<and> trans_holds sb' = trans_holds sb \<and>
   all_locked list' \<and> names_of list' = names_of list"
proof (induction list arbitrary: sb sb' list')
  case Nil
  then show ?case by (simp add: names_of_def all_locked_def)
next
  case (Cons l ls)
  obtain r lck sb1 where a: "scoutfs_lock_inode_index sb DLM_LOCK_CW (il_type l) (il_major l) (il_ino l) = (r, lck, sb1)"
    by (cases "scoutfs_lock_inode_index sb DLM_LOCK_CW (il_type l) (il_major l) (il_ino l)")
  obtain r2 sb2 ls2 where b: "lock_index_locks sb1 ls = (r2, sb2, ls2)"
    by (cases "lock_index_locks sb1 ls")
  from Cons.prems a b have r: "r = 0" and r2: "r2 = 0" and sb': "sb' = sb2"
    and l': "list' = l\<lparr>il_lock := lck\<rparr> # ls2"
    by (auto split: if_splits)
  from scoutfs_lock_inode_index_ok [OF a [unfolded r]] obtain k where
    h1: "held_locks sb1 = add_mset (Index_lock (il_type l) (il_major l) (il_ino l), DLM_LOCK_CW) (held_locks sb)"
    and t1: "trans_holds sb1 = trans_holds sb"
    and k: "lck = Some k" "lock_name k = Index_lock (il_type l) (il_major l) (il_ino l)"
    by blast
  from Cons.IH [OF b [unfolded r2]]
  have h2: "held_locks sb2 = held_locks sb1 + names_of ls" and t2: "trans_holds sb2 = trans_holds sb1"
    and a2: "all_locked ls2" and n2: "names_of ls2 = names_of ls"
    by simp_all
  show ?case
    unfolding sb' l' using h1 t1 k h2 t2 a2 n2
    by (simp add: names_of_def all_locked_def)
qed

lemma scoutfs_inode_index_unlock_all:
  "all_locked list \<Longrightarrow>
   held_locks (scoutfs_inode_index_unlock sb list) = held_locks sb - names_of list \<and>
   trans_holds (scoutfs_inode_index_unlock sb list) = trans_holds sb"
proof (induction list arbitrary: sb)
  case Nil
  then show ?case by (simp add: names_of_def)
next
  case (Cons l ls)
  from Cons.prems obtain k where k: "il_lock l = Some k"
    "lock_name k = Index_lock (il_type l) (il_major l) (il_ino l)" and ls: "all_locked ls"
    by (auto simp: all_locked_def split: option.splits)
  have u: "held_locks (scoutfs_unlock sb (il_lock l) DLM_LOCK_CW) =
             held_locks sb - {#(Index_lock (il_type l) (il_major l) (il_ino l), DLM_LOCK_CW)#}"
    "trans_holds (scoutfs_unlock sb (il_lock l) DLM_LOCK_CW) = trans_holds sb"
    using k by (simp_all add: scoutfs_unlock_def called_def)
  from Cons.IH [OF ls, of "scoutfs_unlock sb (il_lock l) DLM_LOCK_CW"] u
  show ?case by (simp add: names_of_def)
qed

lemma scoutfs_hold_trans_ok:
  "scoutfs_hold_trans sb = (0, sb') \<Longrightarrow>
   held_locks sb' = held_locks sb \<and> trans_holds sb' = Suc (trans_holds sb)"
  by (auto simp: scoutfs_hold_trans_def take_fault_def env_commit_def called_def
      split: list.splits if_splits)

lemma scoutfs_release_trans_res:
  "held_locks (scoutfs_release_trans sb) = held_locks sb \<and>
   trans_holds (scoutfs_release_trans sb) = trans_holds sb - 1"
  by (simp add: scoutfs_release_trans_def called_def)

text \<open>What a positive return of \<^verbatim>\<open>scoutfs_inode_index_try_lock_hold\<close> means.\<close>

lemma scoutfs_inode_index_try_lock_hold_retry:
  assumes run: "scoutfs_inode_index_try_lock_hold sb list seq = (ret, sb', list')"
    and pos: "0 < ret"
  shows "ret = 1 \<and> list' = [] \<and> trans_seq sb' \<noteq> seq \<and>
         held_locks sb' = held_locks sb \<and> trans_holds sb' = trans_holds sb \<and>
         (\<exists>sb1 sb2 list1. lock_index_locks sb (list_sort list) = (0, sb1, list1) \<and>
            scoutfs_hold_trans sb1 = (0, sb2) \<and> trans_seq sb2 \<noteq> seq \<and>
            sb' = scoutfs_inode_index_unlock (scoutfs_release_trans sb2) list1)"
proof -
  obtain r1 sb1 l1 where a: "lock_index_locks sb (list_sort list) = (r1, sb1, l1)"
    by (cases "lock_index_locks sb (list_sort list)")
  have r1: "r1 = 0"
  proof (rule ccontr)
    assume "r1 \<noteq> 0"
    with run a have "ret = r1"
      by (simp add: scoutfs_inode_index_try_lock_hold_def try_lock_hold_out_def)
    with lock_index_locks_env [OF a] pos show False by simp
  qed
  obtain r2 sb2 where b: "scoutfs_hold_trans sb1 = (r2, sb2)"
    by (cases "scoutfs_hold_trans sb1")
  have c: "r2 = 0 \<and> seq \<noteq> trans_seq sb2"
  proof (rule ccontr)
    assume "\<not> (r2 = 0 \<and> seq \<noteq> trans_seq sb2)"
    with run a b r1 have "ret = r2"
      by (auto simp: scoutfs_inode_index_try_lock_hold_def try_lock_hold_out_def split: if_splits)
    with scoutfs_hold_trans_env [OF b] pos show False by simp
  qed
  with run a b r1 have res: "ret = 1" "list' = []"
    "sb' = scoutfs_inode_index_unlock (scoutfs_release_trans sb2) l1"
    by (simp_all add: scoutfs_inode_index_try_lock_hold_def try_lock_hold_out_def)
  from lock_index_locks_ok [OF a [unfolded r1]]
  have h1: "held_locks sb1 = held_locks sb + names_of (list_sort list)"
    and t1: "trans_holds sb1 = trans_holds sb" and al: "all_locked l1"
    and nm: "names_of l1 = names_of (list_sort list)"
    by simp_all
  from c b have b0: "scoutfs_hold_trans sb1 = (0, sb2)" by simp
  note h2 = scoutfs_hold_trans_ok [OF b0]
  note h3 = scoutfs_release_trans_res [of sb2]
  note h4 = scoutfs_inode_index_unlock_all [OF al, of "scoutfs_release_trans sb2"]
  have "held_locks sb' = held_locks sb" "trans_holds sb' = trans_holds sb"
    unfolding res using h1 t1 nm h2 h3 h4 by simp_all
  moreover have "trans_seq sb' = trans_seq sb2"
    unfolding res by (simp add: scoutfs_inode_index_unlock_env scoutfs_release_trans_env)
  ultimately show ?thesis using res c a b0 r1 by auto
qed

text \<open>Preparing the locks takes and drops nothing.\<close>

lemma kzalloc_res:
  "kzalloc sb = (ok, sb') \<Longrightarrow> held_locks sb' = held_locks sb \<and> trans_holds sb' = trans_holds sb"
  by (auto simp: kzalloc_def take_fault_def called_def split: list.splits)

lemma add_index_lock_res:
  "add_index_lock rng sb list i type major minor = (ret, sb', list') \<Longrightarrow>
   held_locks sb' = held_locks sb \<and> trans_holds sb' = trans_holds sb"
  by (auto simp: add_index_lock_def split: prod.splits if_splits dest!: kzalloc_res)

lemma prepare_index_items_res:
  "prepare_index_items rng sb si list i mode type major minor = (ret, sb', list') \<Longrightarrow>
   held_locks sb' = held_locks sb \<and> trans_holds sb' = trans_holds sb"
  by (auto simp: prepare_index_items_def split: prod.splits if_splits option.splits
      dest!: add_index_lock_res)

lemma prepare_indices_loop_res:
  "prepare_indices_loop rng sb list si i mode ret upds = (ret', sb', list') \<Longrightarrow>
   held_locks sb' = held_locks sb \<and> trans_holds sb' = trans_holds sb"
proof (induction upds arbitrary: sb list ret)
  case Nil
  then show ?case by simp
next
  case (Cons u us)
  obtain type major minor where u: "u = (type, major, minor)" by (cases u)
  show ?case
  proof (cases "inode_has_index mode type")
    case False
    with Cons.prems u show ?thesis by (auto dest: Cons.IH)
  next
    case True
    obtain r1 sb1 l1 where a: "prepare_index_items rng sb si list i mode type major minor = (r1, sb1, l1)"
      by (cases "prepare_index_items rng sb si list i mode type major minor")
    note e1 = prepare_index_items_res [OF a]
    show ?thesis
    proof (cases "r1 = 0")
      case False
      with Cons.prems u True a e1 show ?thesis by auto
    next
      case r0: True
      with Cons.prems u True a have "prepare_indices_loop rng sb1 l1 si i mode 0 us = (ret', sb', list')"
        by simp
      from Cons.IH [OF this] e1 show ?thesis by simp
    qed
  qed
qed

lemma scoutfs_inode_index_prepare_res:
  "scoutfs_inode_index_prepare rng sb list inode new_size sds = (ret, sb', list') \<Longrightarrow>
   held_locks sb' = held_locks sb \<and> trans_holds sb' = trans_holds sb"
  unfolding scoutfs_inode_index_prepare_def prepare_indices_def
  by (rule prepare_indices_loop_res)

lemma lock_hold_attempt_retry:
  assumes run: "lock_hold_attempt rng sb inode list new_size sds = (ret, sb', list')"
    and pos: "0 < ret"
  shows "ret = 1 \<and> list' = [] \<and> trans_seq sb' \<noteq> trans_seq sb \<and>
         held_locks sb' = held_locks sb \<and> trans_holds sb' = trans_holds sb \<and>
         advances sb' < advances sb"
proof -
  obtain r1 sb1 l1 where a: "scoutfs_inode_index_prepare rng sb list inode new_size sds = (r1, sb1, l1)"
    by (cases "scoutfs_inode_index_prepare rng sb list inode new_size sds")
  note e1 = scoutfs_inode_index_prepare_env [OF a]
  note s1 = scoutfs_inode_index_prepare_res [OF a]
  have r1: "r1 = 0"
  proof (rule ccontr)
    assume "r1 \<noteq> 0"
    with run a have "ret = r1"
      by (simp add: lock_hold_attempt_def scoutfs_inode_index_start_def)
    with e1 pos show False by simp
  qed
  with run a have t: "scoutfs_inode_index_try_lock_hold sb1 l1 (trans_seq sb) = (ret, sb', list')"
    by (simp add: lock_hold_attempt_def scoutfs_inode_index_start_def)
  from scoutfs_inode_index_try_lock_hold_retry [OF t pos] s1 lock_hold_attempt_env [OF run] pos
  show ?thesis by simp
qed

lemma scoutfs_inode_index_lock_hold_bound:
  "scoutfs_inode_index_lock_hold rng sb inode list new_size sds = (ret, sb', list', n) \<Longrightarrow>
   ret \<le> 0 \<and> 1 \<le> n \<and> n \<le> advances sb + 1"
proof (induction rng sb inode list new_size sds arbitrary: ret sb' list' n
    rule: scoutfs_inode_index_lock_hold.induct)
  case (1 rng sb inode list new_size sds)
  obtain r1 sb1 l1 where a: "lock_hold_attempt rng sb inode list new_size sds = (r1, sb1, l1)"
    by (cases "lock_hold_attempt rng sb inode list new_size sds")
  show ?case
  proof (cases "0 < r1")
    case True
    obtain r2 sb2 l2 n2 where b: "scoutfs_inode_index_lock_hold rng sb1 inode l1 new_size sds = (r2, sb2, l2, n2)"
      by (cases "scoutfs_inode_index_lock_hold rng sb1 inode l1 new_size sds") auto
    with "1.prems" a True have eq: "ret = r2" "n = Suc n2"
      by (simp_all add: scoutfs_inode_index_lock_hold.simps [of rng sb])
    from "1.IH" [OF a [symmetric] refl True b] lock_hold_attempt_env [OF a] True
    show ?thesis unfolding eq by simp
  next
    case False
    with "1.prems" a have "ret = r1" "n = 1"
      by (simp_all add: scoutfs_inode_index_lock_hold.simps [of rng sb])
    with False show ?thesis by simp
  qed
qed


text \<open>Claim C4. One pass of the loop of \<^verbatim>\<open>scoutfs_inode_index_lock_hold\<close> samples the
  sequence, prepares the locks, sorts and takes them and holds the transaction. When all of
  that went through and the sequence then differs from the sample, the pass returns 1 after
  releasing the transaction and unlocking every entry of the list: the list is empty, and
  the task holds the locks and transaction holds it held before the pass. The function
  then runs the whole cycle again from that state. It never returns a positive value, and
  it makes at most one pass more than the sequence advances while it runs.\<close>

theorem scoutfs_inode_index_lock_hold_retry:
  assumes prep: "scoutfs_inode_index_prepare rng sb list inode new_size sds = (0, sb1, list1)"
    and locks: "lock_index_locks sb1 (list_sort list1) = (0, sb2, list2)"
    and hold: "scoutfs_hold_trans sb2 = (0, sb3)"
    and seq: "trans_seq sb3 \<noteq> trans_seq sb"
  shows "lock_hold_attempt rng sb inode list new_size sds =
           (1, scoutfs_inode_index_unlock (scoutfs_release_trans sb3) list2, []) \<and>
         trans_holds (scoutfs_inode_index_unlock (scoutfs_release_trans sb3) list2) = trans_holds sb \<and>
         held_locks (scoutfs_inode_index_unlock (scoutfs_release_trans sb3) list2) = held_locks sb \<and>
         scoutfs_inode_index_lock_hold rng sb inode list new_size sds =
           (case scoutfs_inode_index_lock_hold rng
                   (scoutfs_inode_index_unlock (scoutfs_release_trans sb3) list2) inode [] new_size sds of
              (r, s, l, n) \<Rightarrow> (r, s, l, Suc n)) \<and>
         (case scoutfs_inode_index_lock_hold rng sb inode list new_size sds of
            (r, s, l, n) \<Rightarrow> r \<le> 0 \<and> n \<le> advances sb + 1)"
proof -
  let ?sb4 = "scoutfs_inode_index_unlock (scoutfs_release_trans sb3) list2"
  have att: "lock_hold_attempt rng sb inode list new_size sds = (1, ?sb4, [])"
    using prep locks hold seq
    by (simp add: lock_hold_attempt_def scoutfs_inode_index_start_def
        scoutfs_inode_index_try_lock_hold_def try_lock_hold_out_def)
  from lock_hold_attempt_retry [OF att]
  have res: "held_locks ?sb4 = held_locks sb" "trans_holds ?sb4 = trans_holds sb"
    by simp_all
  have again: "scoutfs_inode_index_lock_hold rng sb inode list new_size sds =
           (case scoutfs_inode_index_lock_hold rng ?sb4 inode [] new_size sds of
              (r, s, l, n) \<Rightarrow> (r, s, l, Suc n))"
    using att by (simp add: scoutfs_inode_index_lock_hold.simps [of rng sb])
  obtain r s l n where run: "scoutfs_inode_index_lock_hold rng sb inode list new_size sds = (r, s, l, n)"
    by (cases "scoutfs_inode_index_lock_hold rng sb inode list new_size sds") auto
  from scoutfs_inode_index_lock_hold_bound [OF run]
  have "case scoutfs_inode_index_lock_hold rng sb inode list new_size sds of
            (r, s, l, n) \<Rightarrow> r \<le> 0 \<and> n \<le> advances sb + 1"
    unfolding run by simp
  with att res again show ?thesis by simp
qed

text \<open>Inode 7 grows to size 20 while another task commits once, during the first hold of
  the transaction: the first pass returns 1 and the second pass succeeds.\<close>

theorem scoutfs_inode_index_lock_hold_retry_witness:
  "fst (lock_hold_attempt example_rng (example_sb\<lparr>commits := [0, 1]\<rparr>) example_inode [] 20 False) = 1 \<and>
   advances (example_sb\<lparr>commits := [0, 1]\<rparr>) = 1 \<and>
   fst (scoutfs_inode_index_lock_hold example_rng (example_sb\<lparr>commits := [0, 1]\<rparr>)
          example_inode [] 20 False) = 0 \<and>
   snd (snd (snd (scoutfs_inode_index_lock_hold example_rng (example_sb\<lparr>commits := [0, 1]\<rparr>)
          example_inode [] 20 False))) = 2"
proof -
  let ?sb = "example_sb\<lparr>commits := [0, 1]\<rparr>"
  let ?P = "scoutfs_inode_index_prepare example_rng ?sb [] example_inode 20 False"
  let ?L = "lock_index_locks (fst (snd ?P)) (list_sort (snd (snd ?P)))"
  let ?H = "scoutfs_hold_trans (fst (snd ?L))"
  have "fst ?P = 0" by code_simp
  then have p: "?P = (0, fst (snd ?P), snd (snd ?P))"
    by (metis prod.collapse)
  have "fst ?L = 0" by code_simp
  then have l: "?L = (0, fst (snd ?L), snd (snd ?L))"
    by (metis prod.collapse)
  have "fst ?H = 0" by code_simp
  then have h: "?H = (0, snd ?H)"
    by (metis prod.collapse)
  have s: "trans_seq (snd ?H) \<noteq> trans_seq ?sb" by code_simp
  note t = scoutfs_inode_index_lock_hold_retry [OF p l h s]
  from t have a: "fst (lock_hold_attempt example_rng ?sb example_inode [] 20 False) = 1"
    by simp
  have b: "advances ?sb = 1" by code_simp
  have c: "fst (scoutfs_inode_index_lock_hold example_rng ?sb example_inode [] 20 False) = 0"
    by code_simp
  have d: "snd (snd (snd (scoutfs_inode_index_lock_hold example_rng ?sb example_inode [] 20 False))) = 2"
    by code_simp
  from a b c d show ?thesis by simp
qed


section \<open>Writeback tracking: order and membership\<close>


lemma insert_writeback_inode_set:
  "insert_writeback_inode tree i = Some tree' \<Longrightarrow> set tree' = insert i (set tree)"
  by (induction tree arbitrary: tree') (auto split: if_splits)

lemma insert_writeback_inode_sorted:
  "insert_writeback_inode tree i = Some tree' \<Longrightarrow> sorted_wrt (<) tree \<Longrightarrow> sorted_wrt (<) tree'"
proof (induction tree arbitrary: tree')
  case Nil
  then show ?case by auto
next
  case (Cons a tree)
  show ?case
  proof (cases "i < a")
    case True
    with Cons.prems have "tree' = i # a # tree" and "\<forall>x \<in> set tree. a < x"
      and "sorted_wrt (<) tree"
      by auto
    with True show ?thesis by (auto dest: order.strict_trans)
  next
    case False
    with Cons.prems obtain t where t: "insert_writeback_inode tree i = Some t" "tree' = a # t" "a < i"
      by (auto split: if_splits)
    from insert_writeback_inode_set [OF t(1)] Cons.IH [OF t(1)] Cons.prems(2) t(2,3)
    show ?thesis by auto
  qed
qed

lemma insert_writeback_inode_absent:
  "i \<notin> set tree \<Longrightarrow> \<exists>tree'. insert_writeback_inode tree i = Some tree'"
  by (induction tree) auto

lemma rb_next_sorted:
  "sorted_wrt (<) (pre @ x # suf) \<Longrightarrow> rb_next (pre @ x # suf) x = rb_first suf"
proof -
  assume s: "sorted_wrt (<) (pre @ x # suf)"
  then have pre: "\<forall>y \<in> set pre. \<not> x < y" and suf: "\<forall>y \<in> set suf. x < y"
    by (auto simp: sorted_wrt_append)
  have "find (\<lambda>y. x < y) (pre @ x # suf) = find (\<lambda>y. x < y) suf"
    using pre by (induction pre) auto
  also have "\<dots> = rb_first suf"
    using suf by (cases suf) (auto simp: rb_first_def)
  finally show ?thesis by (simp add: rb_next_def)
qed

lemma sorted_remove_mid:
  "sorted_wrt (<) (pre @ x # suf) \<Longrightarrow>
   removeAll (x::u64) (pre @ x # suf) = pre @ suf \<and> sorted_wrt (<) (pre @ suf)"
proof -
  assume s: "sorted_wrt (<) (pre @ x # suf)"
  then have "x \<notin> set pre" and "x \<notin> set suf"
    by (auto simp: sorted_wrt_append)
  then have "removeAll x (pre @ x # suf) = pre @ suf"
    by simp
  moreover from s have "sorted_wrt (<) (pre @ suf)"
    by (auto simp: sorted_wrt_append)
  ultimately show ?thesis by simp
qed

text \<open>The wait-mode walk from a node on: what is before the node stays, what comes from
  it on is waited for in order and removed, but for the inodes that cannot be grabbed.\<close>

lemma walk_wait:
  "sorted_wrt (<) (pre @ suf) \<Longrightarrow>
   walk_writeback_loop igrab fdw fdwait False (pre @ suf) (rb_first suf) ret vis = (0, tree', vis') \<Longrightarrow>
   tree' = pre @ filter (\<lambda>i. \<not> igrab i) suf \<and> vis' = vis @ filter igrab suf"
proof (induction suf arbitrary: pre ret vis)
  case Nil
  then show ?case
    by (simp add: walk_writeback_loop.simps [of _ _ _ _ _ None] rb_first_def)
next
  case (Cons x suf)
  from Cons.prems(1) have nx: "rb_next (pre @ x # suf) x = rb_first suf"
    by (rule rb_next_sorted)
  have first: "rb_first (x # suf) = Some x" by (simp add: rb_first_def)
  show ?case
  proof (cases "igrab x")
    case False
    with Cons.prems(2) first nx
    have "walk_writeback_loop igrab fdw fdwait False ((pre @ [x]) @ suf) (rb_first suf) ret vis =
            (0, tree', vis')"
      by (simp add: walk_writeback_loop.simps [of _ _ _ _ _ "Some x"])
    from Cons.IH [OF _ this] Cons.prems(1) False show ?thesis by simp
  next
    case True
    have mem: "x \<in> set (pre @ x # suf)" by simp
    from sorted_remove_mid [OF Cons.prems(1)]
    have rm: "remove_writeback_inode (pre @ x # suf) x = pre @ suf"
      and so: "sorted_wrt (<) (pre @ suf)"
      by (simp_all add: remove_writeback_inode_def rb_erase_def)
    have io: "fdwait x = 0"
    proof (rule ccontr)
      assume "fdwait x \<noteq> 0"
      with Cons.prems(2) first True show False
        by (simp add: walk_writeback_loop.simps [of _ _ _ _ _ "Some x"] Let_def)
    qed
    with Cons.prems(2) first True nx mem rm
    have "walk_writeback_loop igrab fdw fdwait False (pre @ suf) (rb_first suf) 0 (vis @ [x]) =
            (0, tree', vis')"
      by (simp add: walk_writeback_loop.simps [of _ _ _ _ "pre @ x # suf" "Some x"] Let_def)
    from Cons.IH [OF so this] True show ?thesis by simp
  qed
qed

lemma walk_flush:
  "walk_writeback_loop igrab fdw fdwait True tree node ret vis = (ret', tree', vis') \<Longrightarrow> tree' = tree"
proof (induction igrab fdw fdwait True tree node ret vis rule: walk_writeback_loop.induct)
  case (1 igrab fdw fdwait tree node ret visited)
  show ?case
  proof (cases node)
    case None
    with "1.prems" show ?thesis
      by (simp add: walk_writeback_loop.simps [of _ _ _ _ _ None])
  next
    case (Some si)
    show ?thesis
    proof (cases "igrab si")
      case False
      with "1.prems" Some "1.hyps"(1) [OF Some] show ?thesis
        by (simp add: walk_writeback_loop.simps [of _ _ _ _ _ "Some si"])
    next
      case True
      show ?thesis
      proof (cases "fdw si = 0")
        case False
        with "1.prems" Some True show ?thesis
          by (simp add: walk_writeback_loop.simps [of _ _ _ _ _ "Some si"] Let_def)
      next
        case io: True
        with "1.prems" Some True "1.hyps"(2) [OF Some _ refl] show ?thesis
          by (simp add: walk_writeback_loop.simps [of _ _ _ _ tree "Some si"] Let_def)
      qed
    qed
  qed
qed

text \<open>Claim C9 says that a successful wait-mode walk leaves the set empty. It does not
  when an inode cannot be grabbed (it is being freed): the walk skips it. With 1, 2 and 3
  tracked and 2 being freed, the walk waits for 1 and 3, returns 0 and leaves 2.\<close>

theorem walk_writeback_skips_ungrabbed:
  "scoutfs_inode_walk_writeback (\<lambda>i. i \<noteq> 2) (\<lambda>i. 0) (\<lambda>i. 0) [1, 2, 3] False 0 = (0, [2], [1, 3])"
  by code_simp

text \<open>Claim C9, amended. \<^verbatim>\<open>scoutfs_inode_queue_writeback\<close> is an idempotent insert keyed
  by the inode number, which keeps the set in ascending order. A wait-mode walk that
  returns 0 has waited, in ascending order, for exactly the tracked inodes that could be
  grabbed, has removed each of them and has left the others: the set is empty when every
  tracked inode could be grabbed. A flush-mode walk leaves the set as it was, whatever
  it returns.\<close>

theorem writeback_tracking:
  "(scoutfs_inode_queue_writeback tree i = Some tree1 \<longrightarrow>
      scoutfs_inode_queue_writeback tree1 i = Some tree1 \<and> set tree1 = insert i (set tree) \<and>
      (sorted_wrt (<) tree \<longrightarrow> sorted_wrt (<) tree1)) \<and>
   (sorted_wrt (<) tree \<and>
    scoutfs_inode_walk_writeback igrab fdatawrite fdatawait tree False ret0 = (0, tree2, visited) \<longrightarrow>
      visited = filter igrab tree \<and> sorted_wrt (<) visited \<and>
      tree2 = filter (\<lambda>i. \<not> igrab i) tree \<and>
      ((\<forall>i \<in> set tree. igrab i) \<longrightarrow> visited = tree \<and> tree2 = [])) \<and>
   (scoutfs_inode_walk_writeback igrab fdatawrite fdatawait tree True ret0 = (ret, tree3, visited3) \<longrightarrow>
      tree3 = tree)"
proof (intro conjI impI)
  assume q: "scoutfs_inode_queue_writeback tree i = Some tree1"
  show s: "set tree1 = insert i (set tree)"
    using q by (auto simp: scoutfs_inode_queue_writeback_def
        dest: insert_writeback_inode_set split: if_splits)
  then show "scoutfs_inode_queue_writeback tree1 i = Some tree1"
    by (simp add: scoutfs_inode_queue_writeback_def)
  assume "sorted_wrt (<) tree"
  with q show "sorted_wrt (<) tree1"
    by (auto simp: scoutfs_inode_queue_writeback_def
        dest: insert_writeback_inode_sorted split: if_splits)
next
  assume a: "sorted_wrt (<) tree \<and>
    scoutfs_inode_walk_writeback igrab fdatawrite fdatawait tree False ret0 = (0, tree2, visited)"
  then have "walk_writeback_loop igrab fdatawrite fdatawait False ([] @ tree) (rb_first tree) ret0 [] =
      (0, tree2, visited)"
    by (simp add: scoutfs_inode_walk_writeback_def)
  from walk_wait [OF _ this] a
  show v: "visited = filter igrab tree" and t: "tree2 = filter (\<lambda>i. \<not> igrab i) tree"
    by simp_all
  from a v show "sorted_wrt (<) visited"
    by (simp add: sorted_wrt_filter)
  assume "\<forall>i \<in> set tree. igrab i"
  with v t show "visited = tree" and "tree2 = []" by simp_all
next
  assume "scoutfs_inode_walk_writeback igrab fdatawrite fdatawait tree True ret0 = (ret, tree3, visited3)"
  then show "tree3 = tree"
    unfolding scoutfs_inode_walk_writeback_def by (rule walk_flush)
qed


text \<open>Tracking 3, 1 and 2, in this order, and walking in wait mode with every inode
  grabbed and every wait succeeding: the walk visits 1, 2, 3 and leaves nothing; the walk
  in flush mode leaves all three.\<close>

theorem writeback_tracking_witness:
  "scoutfs_inode_queue_writeback [] 3 = Some [3] \<and>
   scoutfs_inode_queue_writeback [3] 1 = Some [1, 3] \<and>
   scoutfs_inode_queue_writeback [1, 3] 2 = Some [1, 2, 3] \<and>
   scoutfs_inode_queue_writeback [1, 2, 3] 2 = Some [1, 2, 3] \<and>
   scoutfs_inode_walk_writeback (\<lambda>i. True) (\<lambda>i. 0) (\<lambda>i. 0) [1, 2, 3] False (- EIO) = (0, [], [1, 2, 3]) \<and>
   fst (snd (scoutfs_inode_walk_writeback (\<lambda>i. True) (\<lambda>i. 0) (\<lambda>i. 0) [1, 2, 3] True (- EIO))) = [1, 2, 3]"
proof -
  let ?W = "scoutfs_inode_walk_writeback (\<lambda>i. True) (\<lambda>i. 0) (\<lambda>i. 0) [1, 2, 3] False (- EIO)"
  let ?F = "scoutfs_inode_walk_writeback (\<lambda>i. True) (\<lambda>i. 0) (\<lambda>i. 0) [1, 2, 3] True (- EIO)"
  have q1: "scoutfs_inode_queue_writeback [] 3 = Some [3]"
    and q2: "scoutfs_inode_queue_writeback [3] 1 = Some [1, 3]"
    and q3: "scoutfs_inode_queue_writeback [1, 3] 2 = Some [1, 2, 3]"
    by (simp_all add: scoutfs_inode_queue_writeback_def)
  have "fst ?W = 0" by code_simp
  then have w: "?W = (0, fst (snd ?W), snd (snd ?W))"
    by (metis prod.collapse)
  have f: "?F = (fst ?F, fst (snd ?F), snd (snd ?F))"
    by simp
  have so: "sorted_wrt (<) [1, 2, 3 :: u64]" by simp
  note t = writeback_tracking [where tree = "[1, 3]" and i = 2 and ?tree1.0 = "[1, 2, 3]"]
  note u = writeback_tracking [where tree = "[1, 2, 3]" and igrab = "\<lambda>i. True"
      and fdatawrite = "\<lambda>i. 0" and fdatawait = "\<lambda>i. 0" and ?ret0.0 = "- EIO"
      and ?tree2.0 = "fst (snd ?W)" and visited = "snd (snd ?W)"
      and ret = "fst ?F" and ?tree3.0 = "fst (snd ?F)" and ?visited3.0 = "snd (snd ?F)"]
  from t q3 have q4: "scoutfs_inode_queue_writeback [1, 2, 3] 2 = Some [1, 2, 3]"
    by simp
  from u w so have "snd (snd ?W) = [1, 2, 3] \<and> fst (snd ?W) = []"
    by simp
  with w have w': "?W = (0, [], [1, 2, 3])" by simp
  from u f have "fst (snd ?F) = [1, 2, 3]"
    by simp
  with q1 q2 q3 q4 w' show ?thesis by simp
qed


section \<open>The pool: one request at a time, exhaustion\<close>




lemma count_pc_pool [simp]: "count_pc P (s\<lparr>pool := p\<rparr>) = count_pc P s"
  by (simp add: count_pc_def)

lemma count_pc_requests [simp]: "count_pc P (s\<lparr>requests := r\<rparr>) = count_pc P s"
  by (simp add: count_pc_def)

lemma count_pc_pending [simp]: "count_pc P (s\<lparr>pending := r\<rparr>) = count_pc P s"
  by (simp add: count_pc_def)

lemma set_thread_fields [simp]:
  "pool (set_thread s t pc) = pool s" "requests (set_thread s t pc) = requests s"
  "pending (set_thread s t pc) = pending s"
  "length (threads (set_thread s t pc)) = length (threads s)"
  by (simp_all add: set_thread_def)

lemma threads_upd [simp]:
  "threads (s\<lparr>pool := p\<rparr>) = threads s" "threads (s\<lparr>requests := r\<rparr>) = threads s"
  "threads (s\<lparr>pending := n\<rparr>) = threads s"
  by simp_all

lemma set_thread_commute [simp]:
  "set_thread (s\<lparr>pool := p\<rparr>) t pc = (set_thread s t pc)\<lparr>pool := p\<rparr>"
  "set_thread (s\<lparr>requests := r\<rparr>) t pc = (set_thread s t pc)\<lparr>requests := r\<rparr>"
  "set_thread (s\<lparr>pending := n\<rparr>) t pc = (set_thread s t pc)\<lparr>pending := n\<rparr>"
  by (simp_all add: set_thread_def)






lemma work_left_upd [simp]:
  "work_left (s\<lparr>pool := p\<rparr>) = work_left s"
  by (simp add: work_left_def)









lemma unfinished_upd [simp]: "unfinished (s\<lparr>pool := p\<rparr>) = unfinished s"
  by (simp add: unfinished_def)









lemma replicate_two: "replicate 2 x = [x, x]"
  by (simp add: numeral_2_eq_2)

text \<open>The refill has to bring a number for every call. Two calls on the empty pool and
  a reply that brings one number: call 0 sends the request, call 1 waits, call 0 takes the
  number, and call 1 finds the pool empty again, sends a second request and waits for
  it.\<close>

theorem alloc_ino_small_refill:
  "run [Run 0, Send 0 0, Run 1, Reply 100 1, Run 0, Run 0, Run 1, Run 1, Send 1 0]
     (alloc_init example_pool 2) =
   Some \<lparr>pool = \<lparr>pool_ino = 101, pool_nr = 0, in_flight = True\<rparr>,
         threads = [Return 0 100, Wait], requests = 2, pending = 1\<rparr> \<and>
   step (Run 1) \<lparr>pool = \<lparr>pool_ino = 101, pool_nr = 0, in_flight = True\<rparr>,
         threads = [Return 0 100, Wait], requests = 2, pending = 1\<rparr> = None"
  by (simp add: alloc_init_def example_pool_def alloc_locked_def set_thread_def
      scoutfs_inode_fill_pool_def ALL_ONES_def replicate_two)


text \<open>Claim C6. After \<^verbatim>\<open>scoutfs_inode_fill_pool\<close> has filled the pool with the sentinel
  (\<^verbatim>\<open>ino = ~0ULL\<close>, \<^verbatim>\<open>nr = 0\<close>), the stretch under the lock returns \<open>- ENOSPC\<close> with
  \<^verbatim>\<open>*ino = 0\<close> and leaves the pool as it is. So a call at its entry, or one that has
  just been woken, returns \<open>- ENOSPC\<close> and 0 in its next step: it neither sends a request
  nor waits, and the pool, the number of requests and the pending requests stay as they
  are. A call that was waiting gets there in two steps, and no signal can end its wait
  before.\<close>

theorem alloc_ino_exhausted:
  assumes t: "t < length (threads s)"
    and full: "pool s = scoutfs_inode_fill_pool p ALL_ONES 0"
  shows "alloc_locked (pool s) = (pool s, Return (- ENOSPC) 0) \<and>
         (threads s ! t = Entry \<or> threads s ! t = Woken \<longrightarrow>
            step (Run t) s = Some (set_thread s t (Return (- ENOSPC) 0)) \<and>
            (\<forall>ret. step (Send t ret) s = None) \<and> step (Signal t) s = None) \<and>
         (threads s ! t = Wait \<longrightarrow>
            run [Run t, Run t] s = Some (set_thread s t (Return (- ENOSPC) 0)) \<and>
            step (Signal t) s = None) \<and>
         pool (set_thread s t (Return (- ENOSPC) 0)) = pool s \<and>
         requests (set_thread s t (Return (- ENOSPC) 0)) = requests s \<and>
         pending (set_thread s t (Return (- ENOSPC) 0)) = pending s"
proof -
  from full have p: "pool_nr (pool s) = 0" "pool_ino (pool s) = ALL_ONES" "\<not> in_flight (pool s)"
    by (simp_all add: scoutfs_inode_fill_pool_def)
  then have l: "alloc_locked (pool s) = (pool s, Return (- ENOSPC) 0)"
    by (simp add: alloc_locked_def)
  have same: "s\<lparr>pool := pool s\<rparr> = s" by simp
  have a: "threads s ! t = Entry \<or> threads s ! t = Woken \<longrightarrow>
            step (Run t) s = Some (set_thread s t (Return (- ENOSPC) 0)) \<and>
            (\<forall>ret. step (Send t ret) s = None) \<and> step (Signal t) s = None"
    using t l same by auto
  have b: "threads s ! t = Wait \<longrightarrow>
            run [Run t, Run t] s = Some (set_thread s t (Return (- ENOSPC) 0)) \<and>
            step (Signal t) s = None"
    using t l p by (auto simp: set_thread_def)
  from l a b show ?thesis by simp
qed

text \<open>A new call and a waiting call on the pool after the sentinel arrived.\<close>

theorem alloc_ino_exhausted_witness:
  "step (Run 0) \<lparr>pool = scoutfs_inode_fill_pool example_pool ALL_ONES 0,
                 threads = [Entry, Wait], requests = 1, pending = 0\<rparr> =
     Some \<lparr>pool = \<lparr>pool_ino = ALL_ONES, pool_nr = 0, in_flight = False\<rparr>,
           threads = [Return (- ENOSPC) 0, Wait], requests = 1, pending = 0\<rparr> \<and>
   run [Run 1, Run 1] \<lparr>pool = scoutfs_inode_fill_pool example_pool ALL_ONES 0,
                 threads = [Entry, Wait], requests = 1, pending = 0\<rparr> =
     Some \<lparr>pool = \<lparr>pool_ino = ALL_ONES, pool_nr = 0, in_flight = False\<rparr>,
           threads = [Entry, Return (- ENOSPC) 0], requests = 1, pending = 0\<rparr>"
proof -
  let ?s = "\<lparr>pool = scoutfs_inode_fill_pool example_pool ALL_ONES 0,
             threads = [Entry, Wait], requests = 1, pending = 0\<rparr>"
  have t0: "0 < length (threads ?s)" and t1: "1 < length (threads ?s)" by simp_all
  have f: "pool ?s = scoutfs_inode_fill_pool example_pool ALL_ONES 0" by simp
  from alloc_ino_exhausted [OF t0 f] alloc_ino_exhausted [OF t1 f]
  show ?thesis
    by (simp add: set_thread_def scoutfs_inode_fill_pool_def example_pool_def)
qed


end
